theory Spec2Isabelle
  imports Complex_Main
begin

section \<open>FlashKit: interpolation of block data between grids (create\_interp.py)\<close>

text \<open>
  A shallow embedding of \<^verbatim>\<open>src/flashkit/library/create_interp.py\<close>: the class
  \<^verbatim>\<open>SimulationData\<close> with its query methods and the function
  \<^verbatim>\<open>interp_blocks\<close>.

  Coordinates and field values are Python/numpy doubles; they are modelled as \<^typ>\<open>real\<close>
  and only compared, never computed with (the interpolation routine itself is a parameter),
  so the model covers every run without NaN. Block sizes, shapes, block numbers and
  indices are natural numbers; the dimensionality and the process counts are integers.
  A Python exception is a value of \<open>error\<close> on the left of a sum. Code of the package
  that the file imports but that is not part of it (the configuration, support.files,
  core.parallel) and scipy's \<^verbatim>\<open>interpn\<close> enter as parameters.
\<close>

subsection \<open>Exceptions\<close>

datatype error =
    LibraryError string
  | IndexError
  | KeyError
  | TypeError
  | ValueError
  | IOError

definition bind :: "error + 'a \<Rightarrow> ('a \<Rightarrow> error + 'b) \<Rightarrow> error + 'b" where
  "bind m f = (case m of Inl e \<Rightarrow> Inl e | Inr x \<Rightarrow> f x)"

fun sequence :: "(error + 'a) list \<Rightarrow> error + 'a list" where
  "sequence [] = Inr []"
| "sequence (m # ms) = bind m (\<lambda>x. bind (sequence ms) (\<lambda>xs. Inr (x # xs)))"

subsection \<open>numpy helpers on one-dimensional data\<close>

text \<open>\<^verbatim>\<open>numpy.unique\<close>: the sorted distinct elements.\<close>

definition unique :: "'a::linorder list \<Rightarrow> 'a list" where
  "unique xs = sort (remdups xs)"

text \<open>\<^verbatim>\<open>a[rows]\<close> with a list of row numbers (fancy indexing): a row number out of
  range raises IndexError.\<close>

definition take_rows :: "'a list \<Rightarrow> nat list \<Rightarrow> error + 'a list" where
  "take_rows a rows =
     (if \<forall>r \<in> set rows. r < length a then Inr (map (\<lambda>r. a ! r) rows) else Inl IndexError)"

text \<open>\<^verbatim>\<open>numpy.where(xs == x)[0][0]\<close>: the first position of \<open>x\<close> in \<open>xs\<close>; taking
  element 0 of an empty result raises IndexError.\<close>

fun first_where :: "'a list \<Rightarrow> 'a \<Rightarrow> nat option" where
  "first_where [] x = None"
| "first_where (y # ys) x = (if y = x then Some 0 else map_option Suc (first_where ys x))"

definition where00 :: "'a list \<Rightarrow> 'a \<Rightarrow> error + nat" where
  "where00 xs x = (case first_where xs x of None \<Rightarrow> Inl IndexError | Some i \<Rightarrow> Inr i)"

subsection \<open>SimulationData\<close>

text \<open>
  \<open>bndboxes\<close> is the array of shape (blocks, 3, 2): per block and axis the pair (low, high).
  \<open>centers\<close> is the array of shape (blocks, 3). \<open>grids\<close> gives per location name and axis the
  two-dimensional coordinate array (one row per block position along the axis), or None.
  \<open>shapes\<close> gives per location name the shape of a stored dataset.
\<close>

type_synonym bbox = "(real \<times> real) list"
type_synonym grid = "real list list"

record SimulationData =
  axisNumProcs :: "int \<times> int \<times> int"
  blkPath :: string
  bndboxes :: "bbox list"
  centers :: "(real \<times> real \<times> real) list"
  grids :: "string \<rightharpoonup> (grid option \<times> grid option \<times> grid option)"
  ndim :: int
  numProcs :: int
  ranges :: "(real \<times> real) list"
  shapes :: "string \<rightharpoonup> nat list"
  sizes :: "nat \<times> nat \<times> nat"

text \<open>The lambda \<^verbatim>\<open>overlaps\<close> of \<^verbatim>\<open>blocks_from_bbox\<close>.\<close>

definition overlaps :: "real \<Rightarrow> real \<Rightarrow> real \<Rightarrow> real \<Rightarrow> bool" where
  "overlaps ll lh hl hh = (\<not> ((hh < ll) \<or> (hl > lh)))"

text \<open>\<^verbatim>\<open>all(overlaps(*low, *high) for low, high in zip(bb, box))\<close>: \<open>low\<close> is the block's
  interval on an axis, \<open>high\<close> the query box's.\<close>

definition all_overlaps :: "bbox \<Rightarrow> bbox \<Rightarrow> bool" where
  "all_overlaps bb box =
     list_all (\<lambda>(low, high). overlaps (fst low) (snd low) (fst high) (snd high)) (zip bb box)"

definition blocks_from_bbox :: "SimulationData \<Rightarrow> bbox \<Rightarrow> nat list" where
  "blocks_from_bbox sd box =
     map fst (filter (\<lambda>(blk, bb). all_overlaps bb box) (enumerate 0 (bndboxes sd)))"

text \<open>\<^verbatim>\<open>self.centers[sliced]\<close>: every row when \<open>blocks\<close> is None, the listed rows
  otherwise.\<close>

definition centers_sliced ::
  "SimulationData \<Rightarrow> nat list option \<Rightarrow> error + (real \<times> real \<times> real) list" where
  "centers_sliced sd blocks =
     (case blocks of None \<Rightarrow> Inr (centers sd) | Some bs \<Rightarrow> take_rows (centers sd) bs)"

definition axis_of :: "nat \<Rightarrow> real \<times> real \<times> real \<Rightarrow> real" where
  "axis_of axis c = (case c of (x, y, z) \<Rightarrow> if axis = 0 then x else if axis = 1 then y else z)"

definition centers_unique :: "SimulationData \<Rightarrow> nat list option \<Rightarrow> error + real list list" where
  "centers_unique sd blocks =
     bind (centers_sliced sd blocks)
       (\<lambda>rows. Inr (map (\<lambda>axis. unique (map (axis_of axis) rows)) [0, 1, 2]))"

definition extent_unique :: "SimulationData \<Rightarrow> nat list option \<Rightarrow> error + nat list" where
  "extent_unique sd blocks = bind (centers_unique sd blocks) (\<lambda>u. Inr (map length u))"

text \<open>\<^verbatim>\<open>index_unique\<close> is called by \<^verbatim>\<open>interp_blocks\<close> with a list of blocks; the model
  takes the list (the default None is not used there).\<close>

definition index_unique :: "SimulationData \<Rightarrow> nat list \<Rightarrow> error + (nat \<times> nat \<times> nat) list" where
  "index_unique sd blocks =
     bind (centers_unique sd (Some blocks)) (\<lambda>uniq.
     bind (take_rows (centers sd) blocks) (\<lambda>rows.
       sequence (map (\<lambda>block.
           bind (where00 (uniq ! 0) (axis_of 0 block)) (\<lambda>i.
           bind (where00 (uniq ! 1) (axis_of 1 block)) (\<lambda>j.
           bind (where00 (uniq ! 2) (axis_of 2 block)) (\<lambda>k. Inr (i, j, k))))) rows)))"

definition index_flatten :: "SimulationData \<Rightarrow> nat list option \<Rightarrow> error + nat list list" where
  "index_flatten sd blocks =
     bind (centers_sliced sd blocks) (\<lambda>rows.
       sequence (map (\<lambda>axis.
           bind (sequence (map (\<lambda>coord.
               bind (centers_unique sd None) (\<lambda>u. where00 (u ! axis) (axis_of axis coord))) rows))
             (\<lambda>is. Inr (unique is))) [0, 1, 2]))"

text \<open>
  The names of the three face-centred locations, \<^verbatim>\<open>FACES = CONFIG[...]['grids'][1:]\<close>, come
  from the configuration, which is a parameter here: \<open>faces = (FACES[0], FACES[1], FACES[2])\<close>.
  The dictionary literal of \<^verbatim>\<open>face_shift\<close> is built by inserting the three keys in order.
\<close>

type_synonym faces = "string \<times> string \<times> string"

definition face_shift :: "faces \<Rightarrow> string \<Rightarrow> nat \<times> nat \<times> nat" where
  "face_shift FACES face =
     (case FACES of (f0, f1, f2) \<Rightarrow>
        (case (Map.empty(f0 \<mapsto> (1, 0, 0), f1 \<mapsto> (0, 1, 0), f2 \<mapsto> (0, 0, 1))) face of
           None \<Rightarrow> (0, 0, 0)
         | Some shift \<Rightarrow> shift))"

definition triple_list :: "'a \<times> 'a \<times> 'a \<Rightarrow> 'a list" where
  "triple_list t = (case t of (a, b, c) \<Rightarrow> [a, b, c])"

definition face_flat_shape ::
  "faces \<Rightarrow> SimulationData \<Rightarrow> nat list option \<Rightarrow> string \<Rightarrow> error + nat list" where
  "face_flat_shape FACES sd blocks face =
     bind (extent_unique sd blocks) (\<lambda>extents.
       Inr (map (\<lambda>(extent, shift, size). extent * size + shift)
              (zip extents (zip (triple_list (face_shift FACES face)) (triple_list (sizes sd))))))"

subsection \<open>numpy arrays of any rank\<close>

text \<open>
  An array is its shape and its items, addressed by a list of indices (one per axis).
  \<^verbatim>\<open>numpy.empty\<close> allocates without initialising: its items are whatever the memory holds,
  a parameter \<open>mem\<close> of the model.
\<close>

datatype ndarray = NDArray (shape: "nat list") (item: "nat list \<Rightarrow> real")

definition numpy_empty :: "(nat list \<Rightarrow> real) \<Rightarrow> nat list \<Rightarrow> ndarray" where
  "numpy_empty mem shp = NDArray shp mem"

fun indices :: "nat list \<Rightarrow> nat list list" where
  "indices [] = [[]]"
| "indices (n # ns) = concat (map (\<lambda>i. map (\<lambda>idx. i # idx) (indices ns)) [0..<n])"

definition elements :: "ndarray \<Rightarrow> real list" where
  "elements a = map (item a) (indices (shape a))"

text \<open>\<^verbatim>\<open>a.max()\<close> and \<^verbatim>\<open>a.min()\<close>: ValueError on an array without elements.\<close>

definition amax :: "ndarray \<Rightarrow> error + real" where
  "amax a = (case elements a of [] \<Rightarrow> Inl ValueError | x # xs \<Rightarrow> Inr (fold max xs x))"

definition amin :: "ndarray \<Rightarrow> error + real" where
  "amin a = (case elements a of [] \<Rightarrow> Inl ValueError | x # xs \<Rightarrow> Inr (fold min xs x))"

text \<open>\<^verbatim>\<open>a[b]\<close> with one integer: the sub-array at position \<open>b\<close> of the first axis.\<close>

definition sub :: "ndarray \<Rightarrow> nat \<Rightarrow> error + ndarray" where
  "sub a b =
     (case shape a of
        [] \<Rightarrow> Inl IndexError
      | n # ns \<Rightarrow> if b < n then Inr (NDArray ns (\<lambda>idx. item a (b # idx))) else Inl IndexError)"

text \<open>
  Broadcasting of the right-hand side of an assignment to a target of shape \<open>ts\<close>: unit axes
  are stripped from the left of the source while it has more axes than the target, the
  remaining axes are aligned to the right, and each must equal the target's or be 1.
\<close>

fun strip_ones :: "nat \<Rightarrow> nat list \<Rightarrow> nat list" where
  "strip_ones n [] = []"
| "strip_ones n (d # ds) = (if length (d # ds) > n \<and> d = 1 then strip_ones n ds else d # ds)"

definition broadcastable :: "nat list \<Rightarrow> nat list \<Rightarrow> bool" where
  "broadcastable ds ts =
     (length ds \<le> length ts \<and>
      list_all (\<lambda>(d, t). d = t \<or> d = 1) (zip ds (drop (length ts - length ds) ts)))"

definition broadcast_to :: "ndarray \<Rightarrow> nat list \<Rightarrow> error + (nat list \<Rightarrow> real)" where
  "broadcast_to d ts =
     (let ds = strip_ones (length ts) (shape d);
          lead = length (shape d) - length ds
      in if broadcastable ds ts
         then Inr (\<lambda>r. item d (replicate lead 0 @
                 map (\<lambda>(di, ri). if di = 1 then 0 else ri) (zip ds (drop (length ts - length ds) r))))
         else Inl ValueError)"

text \<open>
  \<^verbatim>\<open>a[l1:h1, ..., ln:hn] = d\<close>: each slice is clipped to its axis, axes without a slice are
  taken whole, more slices than axes raise IndexError, and \<open>d\<close> is broadcast to the shape
  of the selection.
\<close>

definition clip_slices :: "nat list \<Rightarrow> (nat \<times> nat) list \<Rightarrow> (nat \<times> nat) list" where
  "clip_slices shp slices =
     map (\<lambda>(n, (lo, hi)). (min lo n, min hi n))
       (zip shp (slices @ map (\<lambda>n. (0, n)) (drop (length slices) shp)))"

definition in_slices :: "(nat \<times> nat) list \<Rightarrow> nat list \<Rightarrow> bool" where
  "in_slices sl idx =
     (length idx = length sl \<and> list_all (\<lambda>(i, (lo, hi)). lo \<le> i \<and> i < hi) (zip idx sl))"

definition set_slice :: "ndarray \<Rightarrow> (nat \<times> nat) list \<Rightarrow> ndarray \<Rightarrow> error + ndarray" where
  "set_slice a slices d =
     (if length slices > length (shape a) then Inl IndexError
      else let sl = clip_slices (shape a) slices in
        bind (broadcast_to d (map (\<lambda>(lo, hi). hi - lo) sl)) (\<lambda>src.
          Inr (NDArray (shape a)
                 (\<lambda>idx. if in_slices sl idx then src (map (\<lambda>(i, (lo, hi)). i - lo) (zip idx sl))
                        else item a idx))))"

text \<open>\<^verbatim>\<open>a[step] = d\<close>: the row \<open>step\<close> of the first axis receives \<open>d\<close>, broadcast.\<close>

definition set_row :: "ndarray \<Rightarrow> nat \<Rightarrow> ndarray \<Rightarrow> error + ndarray" where
  "set_row a step d =
     (case shape a of
        [] \<Rightarrow> Inl IndexError
      | n # ns \<Rightarrow>
          if step < n
          then bind (broadcast_to d ns) (\<lambda>src.
                 Inr (NDArray (shape a)
                        (\<lambda>idx. case idx of [] \<Rightarrow> item a idx
                               | i # rest \<Rightarrow> if i = step then src rest else item a idx)))
          else Inl IndexError)"

text \<open>\<^verbatim>\<open>numpy.maximum(numpy.minimum(r, hi), lo)\<close>, item by item.\<close>

definition clip :: "ndarray \<Rightarrow> real \<Rightarrow> real \<Rightarrow> ndarray" where
  "clip r hi lo = NDArray (shape r) (\<lambda>idx. max (min (item r idx) hi) lo)"

text \<open>\<^verbatim>\<open>r[None, :, :]\<close>: a new first axis of length 1.\<close>

definition new_axis :: "ndarray \<Rightarrow> error + ndarray" where
  "new_axis r =
     (if length (shape r) < 2 then Inl IndexError
      else Inr (NDArray (1 # shape r) (\<lambda>idx. item r (tl idx))))"

subsection \<open>The collaborators of interp\_blocks\<close>

text \<open>
  \<^verbatim>\<open>Index\<close> (core.parallel), \<^verbatim>\<open>H5Manager\<close> (support.files), \<^verbatim>\<open>interpn\<close> (scipy) and the
  configuration are not part of the file; the model takes them as the parameter \<open>env\<close>.
  An \<open>Index\<close> gives the number of blocks of this worker and their numbers;
  \<open>mesh_width\<close> gives, per block of the worker, its position along each axis of the
  destination mesh. The storage container answers \<open>read\<close> with the stored dataset of a
  field (indexed by block first); opening and writing may fail. The trace records, in
  order, what \<^verbatim>\<open>interp_blocks\<close> asks of the storage and of the progress sink.
\<close>

record Index =
  index_size :: nat
  index_range :: "nat list"

record env =
  FACES :: faces
  from_simple :: "int \<Rightarrow> Index"
  mesh_width :: "Index \<Rightarrow> int \<times> int \<times> int \<Rightarrow> (nat \<times> nat \<times> nat) list"
  open_fails :: "string \<Rightarrow> error option"
  read :: "string \<Rightarrow> string \<Rightarrow> error + ndarray"
  write_fails :: "string \<Rightarrow> nat \<Rightarrow> error option"
  interpn :: "real list list \<Rightarrow> ndarray \<Rightarrow> real list list \<Rightarrow> error + ndarray"
  mem :: "nat list \<Rightarrow> real"

datatype io_event =
    Open_source string
  | Open_destination string bool
  | Open_progress nat
  | Create_dataset string "nat list"
  | Write_partial string ndarray nat
  | Progress
  | Close_progress
  | Close_destination string
  | Close_source string

text \<open>
  The objects the caller passes by reference (\<open>source\<close>, \<open>destination\<close>, \<open>flows\<close>) and the
  trace form the state; \<^verbatim>\<open>interp_blocks\<close> returns the state it leaves. \<open>flows\<close> is the
  dictionary in its iteration order: field \<open>\<mapsto>\<close> (location, source field, source location).
\<close>

type_synonym flow = "string \<times> (string \<times> string \<times> string)"

record world =
  source :: SimulationData
  destination :: SimulationData
  flows :: "flow list"
  trace :: "io_event list"

definition emit :: "io_event \<Rightarrow> world \<Rightarrow> world" where
  "emit ev w = w\<lparr>trace := trace w @ [ev]\<rparr>"

type_synonym outputs = "string \<rightharpoonup> ndarray"

subsection \<open>interp\_blocks\<close>

text \<open>The first loop: declare the dataset of every field and allocate its result array.\<close>

fun create_datasets ::
  "env \<Rightarrow> Index \<Rightarrow> flow list \<Rightarrow> outputs \<Rightarrow> world \<Rightarrow> (error + outputs) \<times> world" where
  "create_datasets E index [] out w = (Inr out, w)"
| "create_datasets E index ((field, (location, _, _)) # rest) out w =
     (case shapes (destination w) location of
        None \<Rightarrow> (Inl KeyError, w)
      | Some shp \<Rightarrow>
          create_datasets E index rest
            (out(field \<mapsto> numpy_empty (mem E) (index_size index # drop 1 shp)))
            (emit (Create_dataset field shp) w))"

text \<open>\<^verbatim>\<open>numpy.unique(sd.grids[face][axis][rows].flatten())\<close>, where \<open>rows\<close> is an entry of
  \<^verbatim>\<open>index_flatten\<close>; for an empty selection that entry is an empty array of floats, which
  is refused as an index.\<close>

definition source_coords :: "SimulationData \<Rightarrow> string \<Rightarrow> nat \<Rightarrow> nat list \<Rightarrow> error + real list" where
  "source_coords sd face axis rows =
     (case grids sd face of
        None \<Rightarrow> Inl KeyError
      | Some g \<Rightarrow>
          (case triple_list g ! axis of
             None \<Rightarrow> Inl TypeError
           | Some a \<Rightarrow>
               if rows = [] then Inl IndexError
               else bind (take_rows a rows) (\<lambda>rs. Inr (unique (concat rs)))))"

text \<open>\<^verbatim>\<open>sd.grids[face][axis][row, ...]\<close>: the coordinates of one block position.\<close>

definition dest_coords :: "SimulationData \<Rightarrow> string \<Rightarrow> nat \<Rightarrow> nat \<Rightarrow> error + real list" where
  "dest_coords sd face axis row =
     (case grids sd face of
        None \<Rightarrow> Inl KeyError
      | Some g \<Rightarrow>
          (case triple_list g ! axis of
             None \<Rightarrow> Inl TypeError
           | Some a \<Rightarrow> if row < length a then Inr (a ! row) else Inl IndexError))"

text \<open>
  The target slices and the data of one source block, for three and for two dimensions:
  \<^verbatim>\<open>values[kl:kh, jl:jh, il:ih] = input_file.read(source_field)[source_block]\<close> and
  \<^verbatim>\<open>values[jl:jh, il:ih] = input_file.read(source_field)[source_block, 0]\<close>.
\<close>

definition piece3 ::
  "env \<Rightarrow> SimulationData \<Rightarrow> string \<Rightarrow> nat \<times> nat \<times> nat \<Rightarrow> (nat \<times> nat \<times> nat) \<times> nat
     \<Rightarrow> error + ((nat \<times> nat) list \<times> ndarray)" where
  "piece3 E sd source_field source_shift p =
     (case p of ((i, j, k), source_block) \<Rightarrow>
      case sizes sd of (sx, sy, sz) \<Rightarrow>
      case source_shift of (hx, hy, hz) \<Rightarrow>
        let il = i * sx; ih = (i + 1) * sx + hx;
            jl = j * sy; jh = (j + 1) * sy + hy;
            kl = k * sz; kh = (k + 1) * sz + hz
        in bind (read E (blkPath sd) source_field) (\<lambda>dataset.
           bind (sub dataset source_block) (\<lambda>data.
             Inr ([(kl, kh), (jl, jh), (il, ih)], data))))"

definition piece2 ::
  "env \<Rightarrow> SimulationData \<Rightarrow> string \<Rightarrow> nat \<times> nat \<times> nat \<Rightarrow> (nat \<times> nat \<times> nat) \<times> nat
     \<Rightarrow> error + ((nat \<times> nat) list \<times> ndarray)" where
  "piece2 E sd source_field source_shift p =
     (case p of ((i, j, _), source_block) \<Rightarrow>
      case sizes sd of (sx, sy, sz) \<Rightarrow>
      case source_shift of (hx, hy, hz) \<Rightarrow>
        let il = i * sx; ih = (i + 1) * sx + hx;
            jl = j * sy; jh = (j + 1) * sy + hy
        in bind (read E (blkPath sd) source_field) (\<lambda>dataset.
           bind (sub dataset source_block) (\<lambda>block_data.
           bind (sub block_data 0) (\<lambda>data.
             Inr ([(jl, jh), (il, ih)], data)))))"

text \<open>The loop \<^verbatim>\<open>for (i, j, k), source_block in zip(index_uniq, blocks)\<close>.\<close>

fun assemble ::
  "('p \<Rightarrow> error + ((nat \<times> nat) list \<times> ndarray)) \<Rightarrow> 'p list \<Rightarrow> ndarray \<Rightarrow> error + ndarray" where
  "assemble piece [] values = Inr values"
| "assemble piece (p # rest) values =
     bind (piece p) (\<lambda>(slices, data).
     bind (set_slice values slices data) (\<lambda>values'. assemble piece rest values'))"

text \<open>The local source array \<^verbatim>\<open>values\<close> of one destination block and one field.\<close>

definition local_values ::
  "env \<Rightarrow> SimulationData \<Rightarrow> string \<Rightarrow> nat \<times> nat \<times> nat \<Rightarrow> nat list
     \<Rightarrow> (nat \<times> nat \<times> nat) list \<Rightarrow> nat list \<Rightarrow> error + ndarray" where
  "local_values E sd source_field source_shift source_shape index_uniq blocks =
     (if ndim sd = 3
      then assemble (piece3 E sd source_field source_shift) (zip index_uniq blocks)
             (numpy_empty (mem E) (rev source_shape))
      else assemble (piece2 E sd source_field source_shift) (zip index_uniq blocks)
             (numpy_empty (mem E) (rev (take 2 source_shape))))"

text \<open>
  The body of the loop over the fields up to the clipped result, for one destination
  block: None when the dimensionality is neither 3 nor 2 (\<^verbatim>\<open>pass\<close>).
\<close>

definition interp_field ::
  "env \<Rightarrow> SimulationData \<Rightarrow> SimulationData \<Rightarrow> nat list \<Rightarrow> (nat \<times> nat \<times> nat) list
     \<Rightarrow> nat list list \<Rightarrow> nat \<times> nat \<times> nat \<Rightarrow> string \<times> string \<times> string
     \<Rightarrow> error + ndarray option" where
  "interp_field E src dst blocks index_uniq index_flat width fl =
     (case fl of (face, source_field, source_face) \<Rightarrow>
      let source_shift = face_shift (FACES E) source_face in
      bind (face_flat_shape (FACES E) src (Some blocks) source_face) (\<lambda>source_shape.
        if ndim src = 3 then
          bind (source_coords src source_face 0 (index_flat ! 0)) (\<lambda>xxx.
          bind (source_coords src source_face 1 (index_flat ! 1)) (\<lambda>yyy.
          bind (source_coords src source_face 2 (index_flat ! 2)) (\<lambda>zzz.
          bind (local_values E src source_field source_shift source_shape index_uniq blocks)
            (\<lambda>values.
          bind (dest_coords dst face 0 (fst width)) (\<lambda>x.
          bind (dest_coords dst face 1 (fst (snd width))) (\<lambda>y.
          bind (dest_coords dst face 2 (snd (snd width))) (\<lambda>z.
          bind (interpn E [zzz, yyy, xxx] values [z, y, x]) (\<lambda>r.
          bind (amax values) (\<lambda>hi.
          bind (amin values) (\<lambda>lo.
            Inr (Some (clip r hi lo))))))))))))
        else if ndim src = 2 then
          bind (source_coords src source_face 0 (index_flat ! 0)) (\<lambda>xxx.
          bind (source_coords src source_face 1 (index_flat ! 1)) (\<lambda>yyy.
          bind (local_values E src source_field source_shift source_shape index_uniq blocks)
            (\<lambda>values.
          bind (dest_coords dst face 0 (fst width)) (\<lambda>x.
          bind (dest_coords dst face 1 (fst (snd width))) (\<lambda>y.
          bind (interpn E [yyy, xxx] values [y, x]) (\<lambda>r.
          bind (amax values) (\<lambda>hi.
          bind (amin values) (\<lambda>lo.
          bind (new_axis (clip r hi lo)) (\<lambda>r'.
            Inr (Some r'))))))))))
        else Inr None))"

text \<open>
  The rest of the body: \<^verbatim>\<open>output[field][step] = ...\<close> and
  \<^verbatim>\<open>output_file.write_partial(field, output[field][step], block=block, index=index)\<close>.
\<close>

definition store_field ::
  "env \<Rightarrow> string \<Rightarrow> nat \<Rightarrow> nat \<Rightarrow> ndarray \<Rightarrow> outputs \<Rightarrow> world \<Rightarrow> (error + outputs) \<times> world" where
  "store_field E field step block r out w =
     (case out field of
        None \<Rightarrow> (Inl KeyError, w)
      | Some a \<Rightarrow>
          (case set_row a step r of
             Inl e \<Rightarrow> (Inl e, w)
           | Inr a' \<Rightarrow>
               (case sub a' step of
                  Inl e \<Rightarrow> (Inl e, w)
                | Inr row \<Rightarrow>
                    (case write_fails E field block of
                       Some e \<Rightarrow> (Inl e, emit (Write_partial field row block) w)
                     | None \<Rightarrow> (Inr (out(field \<mapsto> a')), emit (Write_partial field row block) w)))))"

text \<open>The loop \<^verbatim>\<open>for field, (face, source_field, source_face) in flows.items()\<close>.\<close>

fun field_loop ::
  "env \<Rightarrow> nat \<Rightarrow> nat \<Rightarrow> nat \<times> nat \<times> nat \<Rightarrow> nat list \<Rightarrow> (nat \<times> nat \<times> nat) list \<Rightarrow> nat list list
     \<Rightarrow> flow list \<Rightarrow> outputs \<Rightarrow> world \<Rightarrow> (error + outputs) \<times> world" where
  "field_loop E step block width blocks index_uniq index_flat [] out w = (Inr out, w)"
| "field_loop E step block width blocks index_uniq index_flat ((field, fl) # rest) out w =
     (case interp_field E (source w) (destination w) blocks index_uniq index_flat width fl of
        Inl e \<Rightarrow> (Inl e, w)
      | Inr None \<Rightarrow> field_loop E step block width blocks index_uniq index_flat rest out w
      | Inr (Some r) \<Rightarrow>
          (case store_field E field step block r out w of
             (Inl e, w') \<Rightarrow> (Inl e, w')
           | (Inr out', w') \<Rightarrow>
               field_loop E step block width blocks index_uniq index_flat rest out' w'))"

text \<open>One pass of the loop over the blocks of the worker, and the loop.\<close>

definition block_step ::
  "env \<Rightarrow> nat \<times> nat \<times> (nat \<times> nat \<times> nat) \<times> bbox \<Rightarrow> outputs \<Rightarrow> world
     \<Rightarrow> (error + outputs) \<times> world" where
  "block_step E entry out w =
     (case entry of (step, block, width, bbox) \<Rightarrow>
       (let blocks = blocks_from_bbox (source w) bbox in
         (case index_unique (source w) blocks of
            Inl e \<Rightarrow> (Inl e, w)
          | Inr index_uniq \<Rightarrow>
              (case index_flatten (source w) (Some blocks) of
                 Inl e \<Rightarrow> (Inl e, w)
               | Inr index_flat \<Rightarrow>
                   (case field_loop E step block width blocks index_uniq index_flat (flows w) out w of
                      (Inl e, w') \<Rightarrow> (Inl e, w')
                    | (Inr out', w') \<Rightarrow> (Inr out', emit Progress w'))))))"

fun block_loop ::
  "env \<Rightarrow> (nat \<times> nat \<times> (nat \<times> nat \<times> nat) \<times> bbox) list \<Rightarrow> outputs \<Rightarrow> world
     \<Rightarrow> (error + outputs) \<times> world" where
  "block_loop E [] out w = (Inr out, w)"
| "block_loop E (entry # rest) out w =
     (case block_step E entry out w of
        (Inl e, w') \<Rightarrow> (Inl e, w')
      | (Inr out', w') \<Rightarrow> block_loop E rest out' w')"

text \<open>The body of the \<^verbatim>\<open>with\<close> statement.\<close>

definition with_body ::
  "env \<Rightarrow> Index \<Rightarrow> (nat \<times> nat \<times> nat) list \<Rightarrow> world \<Rightarrow> (error + outputs) \<times> world" where
  "with_body E index widths w =
     (case create_datasets E index (flows w) Map.empty w of
        (Inl e, w') \<Rightarrow> (Inl e, w')
      | (Inr out, w') \<Rightarrow>
          (case take_rows (bndboxes (destination w')) (index_range index) of
             Inl e \<Rightarrow> (Inl e, w')
           | Inr boxes \<Rightarrow>
               block_loop E (enumerate 0 (zip (index_range index) (zip widths boxes))) out w'))"

text \<open>
  \<^verbatim>\<open>interp_blocks\<close>: the index of the worker, the check of the dimensionalities, the three
  context managers opened in order and closed in reverse order on every way out, and
  the body. (The decorator \<^verbatim>\<open>@safe\<close> of core.parallel is outside the model.)
\<close>

definition interp_blocks :: "env \<Rightarrow> bool \<Rightarrow> world \<Rightarrow> (error + outputs) \<times> world" where
  "interp_blocks E nofile w =
     (let index = from_simple E (numProcs (destination w));
          widths = mesh_width E index (axisNumProcs (destination w))
      in if ndim (destination w) \<noteq> ndim (source w)
         then (Inl (LibraryError ''Incompatible source and destination grids for interpolation!''), w)
         else
           let w1 = emit (Open_source (blkPath (source w))) w in
           case open_fails E (blkPath (source w1)) of
             Some e \<Rightarrow> (Inl e, w1)
           | None \<Rightarrow>
               let w2 = emit (Open_destination (blkPath (destination w1)) nofile) w1 in
               (case open_fails E (blkPath (destination w2)) of
                  Some e \<Rightarrow> (Inl e, emit (Close_source (blkPath (source w2))) w2)
                | None \<Rightarrow>
                    let w3 = emit (Open_progress (index_size index)) w2 in
                    (case with_body E index widths w3 of
                       (r, w4) \<Rightarrow>
                         (r, emit (Close_source (blkPath (source w4)))
                               (emit (Close_destination (blkPath (destination w4)))
                                  (emit Close_progress w4))))))"

subsection \<open>Vocabulary of the statements\<close>

text \<open>The rows of \<open>centers\<close> a subset of blocks selects, and when every block number of
  the subset is one of the topology's.\<close>

definition valid_blocks :: "SimulationData \<Rightarrow> nat list option \<Rightarrow> bool" where
  "valid_blocks sd blocks =
     (case blocks of None \<Rightarrow> True | Some bs \<Rightarrow> list_all (\<lambda>b. b < length (centers sd)) bs)"

definition sliced_rows :: "SimulationData \<Rightarrow> nat list option \<Rightarrow> (real \<times> real \<times> real) list" where
  "sliced_rows sd blocks =
     (case blocks of None \<Rightarrow> centers sd | Some bs \<Rightarrow> map (\<lambda>b. centers sd ! b) bs)"

text \<open>The position of \<open>x\<close> in \<open>xs\<close> (0 when it does not occur), and the logical index of a
  block within a subset: the positions of its centre coordinates among the subset's sorted
  distinct centre coordinates, per axis.\<close>

definition position :: "'a list \<Rightarrow> 'a \<Rightarrow> nat" where
  "position xs x = (case first_where xs x of None \<Rightarrow> 0 | Some i \<Rightarrow> i)"

definition logical_index :: "SimulationData \<Rightarrow> nat list option \<Rightarrow> nat \<Rightarrow> nat \<times> nat \<times> nat" where
  "logical_index sd blocks b =
     (position (unique (map (axis_of 0) (sliced_rows sd blocks))) (axis_of 0 (centers sd ! b)),
      position (unique (map (axis_of 1) (sliced_rows sd blocks))) (axis_of 1 (centers sd ! b)),
      position (unique (map (axis_of 2) (sliced_rows sd blocks))) (axis_of 2 (centers sd ! b)))"

text \<open>Is the event a block written to the destination storage?\<close>

definition is_write :: "io_event \<Rightarrow> bool" where
  "is_write ev = (case ev of Write_partial _ _ _ \<Rightarrow> True | _ \<Rightarrow> False)"

text \<open>
  Every element of \<open>row\<close> lies between the least and the greatest element of the local
  source array assembled, for the field \<open>source_field\<close> at \<open>source_face\<close>, from the source
  blocks that overlap \<open>bbox\<close> (and that array exists and has an element).
\<close>

definition in_source_range ::
  "env \<Rightarrow> SimulationData \<Rightarrow> bbox \<Rightarrow> string \<Rightarrow> string \<Rightarrow> ndarray \<Rightarrow> bool" where
  "in_source_range E src bbox source_field source_face row =
     (let blocks = blocks_from_bbox src bbox in
      case index_unique src blocks of Inl _ \<Rightarrow> False | Inr index_uniq \<Rightarrow>
      (case face_flat_shape (FACES E) src (Some blocks) source_face of Inl _ \<Rightarrow> False
       | Inr source_shape \<Rightarrow>
      (case local_values E src source_field (face_shift (FACES E) source_face) source_shape
              index_uniq blocks of Inl _ \<Rightarrow> False
       | Inr values \<Rightarrow>
      (case amin values of Inl _ \<Rightarrow> False | Inr lo \<Rightarrow>
      (case amax values of Inl _ \<Rightarrow> False | Inr hi \<Rightarrow>
         list_all (\<lambda>v. lo \<le> v \<and> v \<le> hi) (elements row))))))"

text \<open>A written block is the block of a destination bounding box, for a field of
  \<open>flows\<close>, within the range of that block's local source array.\<close>

definition written_ok :: "env \<Rightarrow> world \<Rightarrow> io_event \<Rightarrow> bool" where
  "written_ok E w ev =
     (case ev of
        Write_partial field row block \<Rightarrow>
          block < length (bndboxes (destination w)) \<and>
          list_ex (\<lambda>(f, (face, source_field, source_face)).
              f = field \<and>
              in_source_range E (source w) (bndboxes (destination w) ! block)
                source_field source_face row) (flows w)
      | _ \<Rightarrow> True)"

text \<open>In the result array of a field, the row of a step lies in the range of the local source
  array of the destination box \<open>bbox\<close>.\<close>

definition row_in_range ::
  "env \<Rightarrow> SimulationData \<Rightarrow> outputs \<Rightarrow> nat \<Rightarrow> bbox \<Rightarrow> flow \<Rightarrow> bool" where
  "row_in_range E src out step bbox fl =
     (case fl of (field, (face, source_field, source_face)) \<Rightarrow>
      (case out field of
         None \<Rightarrow> False
       | Some a \<Rightarrow>
           (case sub a step of
              Inl _ \<Rightarrow> False
            | Inr row \<Rightarrow> in_source_range E src bbox source_field source_face row)))"

text \<open>The blocks of the worker that the loop visits, in order: \<^verbatim>\<open>zip\<close> stops at the
  shorter of \<^verbatim>\<open>index.range\<close> and \<^verbatim>\<open>mesh_width\<close>.\<close>

definition assigned :: "env \<Rightarrow> world \<Rightarrow> nat list" where
  "assigned E w =
     (let index = from_simple E (numProcs (destination w))
      in map fst (zip (index_range index) (mesh_width E index (axisNumProcs (destination w)))))"

text \<open>In the returned arrays, for every visited block and every field, the row of the
  block's step lies in the range of the block's local source array.\<close>

definition returned_ok :: "env \<Rightarrow> world \<Rightarrow> outputs \<Rightarrow> bool" where
  "returned_ok E w out =
     list_all (\<lambda>(step, block).
        list_all (row_in_range E (source w) out step (bndboxes (destination w) ! block)) (flows w))
       (enumerate 0 (assigned E w))"

text \<open>Every array of \<open>out\<close> is an allocation of \<^verbatim>\<open>numpy.empty\<close> that nothing was stored in.\<close>

definition unwritten :: "env \<Rightarrow> outputs \<Rightarrow> bool" where
  "unwritten E out = (\<forall>f a. out f = Some a \<longrightarrow> a = numpy_empty (mem E) (shape a))"

text \<open>The blocks written according to a trace: field, block and the elements written.\<close>

definition written_rows :: "io_event list \<Rightarrow> (string \<times> nat \<times> real list) list" where
  "written_rows evs =
     concat (map (\<lambda>ev. case ev of Write_partial field row block \<Rightarrow> [(field, block, elements row)]
                        | _ \<Rightarrow> []) evs)"

text \<open>The index relative to the start of the slices.\<close>

definition offset_from :: "(nat \<times> nat) list \<Rightarrow> nat list \<Rightarrow> nat list" where
  "offset_from sl idx = map (\<lambda>(i, (lo, hi)). i - lo) (zip idx sl)"

text \<open>
  The slices of the local source array that the block with logical index (i, j, k)
  is copied to (in the order of the array's axes: z, y, x; without z when the
  dimensionality is not 3), and the item of a stored block that the copy reads at a
  position relative to the start of the slices.
\<close>

definition block_slices :: "SimulationData \<Rightarrow> nat \<times> nat \<times> nat \<Rightarrow> nat \<times> nat \<times> nat \<Rightarrow> (nat \<times> nat) list" where
  "block_slices sd shift ijk =
     (case ijk of (i, j, k) \<Rightarrow>
      case sizes sd of (sx, sy, sz) \<Rightarrow>
      case shift of (hx, hy, hz) \<Rightarrow>
        (if ndim sd = 3 then [(k * sz, (k + 1) * sz + hz)] else []) @
        [(j * sy, (j + 1) * sy + hy), (i * sx, (i + 1) * sx + hx)])"

definition block_item :: "ndarray \<Rightarrow> SimulationData \<Rightarrow> nat \<Rightarrow> nat list \<Rightarrow> real" where
  "block_item dataset sd b r = item dataset (if ndim sd = 3 then b # r else b # 0 # r)"

text \<open>The item of an array that a computation returned.\<close>

definition result_item :: "error + ndarray \<Rightarrow> nat list \<Rightarrow> error + real" where
  "result_item r idx = (case r of Inl e \<Rightarrow> Inl e | Inr a \<Rightarrow> Inr (item a idx))"

subsection \<open>Vocabulary of the proofs\<close>

text \<open>\<open>w'\<close> is \<open>w\<close> with the same three objects and a trace longer by events that
  satisfy \<open>P\<close>.\<close>

definition extends :: "(io_event \<Rightarrow> bool) \<Rightarrow> world \<Rightarrow> world \<Rightarrow> bool" where
  "extends P w w' =
     (source w' = source w \<and> destination w' = destination w \<and> flows w' = flows w \<and>
      (\<exists>new. trace w' = trace w @ new \<and> list_all P new))"

text \<open>Every item of the array, at whatever index, is between \<open>lo\<close> and \<open>hi\<close>.\<close>

definition all_items :: "real \<Rightarrow> real \<Rightarrow> ndarray \<Rightarrow> bool" where
  "all_items lo hi r = (\<forall>idx. lo \<le> item r idx \<and> item r idx \<le> hi)"

text \<open>What one pass of the loop over the fields may add to the trace: blocks written for
  the block at hand, for a field of the list, within the range of the local source array.\<close>

definition field_event ::
  "env \<Rightarrow> SimulationData \<Rightarrow> nat list \<Rightarrow> (nat \<times> nat \<times> nat) list \<Rightarrow> nat \<Rightarrow> flow list \<Rightarrow> io_event \<Rightarrow> bool" where
  "field_event E src blocks index_uniq block fls ev =
     (case ev of
        Write_partial field row b \<Rightarrow>
          b = block \<and>
          (\<exists>face source_field source_face source_shape vals lo hi.
             (field, (face, source_field, source_face)) \<in> set fls \<and>
             face_flat_shape (FACES E) src (Some blocks) source_face = Inr source_shape \<and>
             local_values E src source_field (face_shift (FACES E) source_face) source_shape
               index_uniq blocks = Inr vals \<and>
             amin vals = Inr lo \<and> amax vals = Inr hi \<and> all_items lo hi row)
      | _ \<Rightarrow> True)"

text \<open>What one pass of the loop over the blocks, and what the loop over a list of
  entries, may add to the trace.\<close>

definition block_event :: "env \<Rightarrow> SimulationData \<Rightarrow> flow list \<Rightarrow> nat \<Rightarrow> bbox \<Rightarrow> io_event \<Rightarrow> bool" where
  "block_event E src fls block bbox ev =
     (case ev of
        Write_partial field row b \<Rightarrow>
          b = block \<and>
          list_ex (\<lambda>(f, (face, source_field, source_face)).
              f = field \<and> in_source_range E src bbox source_field source_face row) fls
      | _ \<Rightarrow> True)"

definition entry_event ::
  "env \<Rightarrow> SimulationData \<Rightarrow> flow list \<Rightarrow> (nat \<times> nat \<times> (nat \<times> nat \<times> nat) \<times> bbox) list
     \<Rightarrow> io_event \<Rightarrow> bool" where
  "entry_event E src fls entries ev =
     (case ev of
        Write_partial field row b \<Rightarrow>
          list_ex (\<lambda>(step, block, width, bbox). block_event E src fls block bbox ev) entries
      | _ \<Rightarrow> True)"

text \<open>Every array of \<open>out\<close> is still in \<open>out'\<close>, with its shape and with its rows outside \<open>S\<close>.\<close>

definition keeps :: "nat set \<Rightarrow> outputs \<Rightarrow> outputs \<Rightarrow> bool" where
  "keeps S out out' =
     (\<forall>f a. out f = Some a \<longrightarrow>
        (\<exists>a'. out' f = Some a' \<and> shape a' = shape a \<and>
           (\<forall>i rest. i \<notin> S \<longrightarrow> item a' (i # rest) = item a (i # rest))))"

text \<open>A selection that needs no clipping, with data of exactly its shape.\<close>

definition exact :: "nat list \<Rightarrow> (nat \<times> nat) list \<Rightarrow> ndarray \<Rightarrow> bool" where
  "exact shp sl d =
     (length sl = length shp \<and>
      (\<forall>n<length shp. fst (sl ! n) \<le> snd (sl ! n) \<and> snd (sl ! n) \<le> shp ! n) \<and>
      shape d = map (\<lambda>(lo, hi). hi - lo) sl)"

subsection \<open>Concrete inputs\<close>

text \<open>A topology of 2 x 3 x 1 unit blocks with 8 x 8 x 1 cells each.\<close>

definition lattice_2_3_1 :: SimulationData where
  "lattice_2_3_1 =
     \<lparr> axisNumProcs = (2, 3, 1), blkPath = ''source'',
       bndboxes = [[(0, 1), (0, 1), (0, 1)], [(1, 2), (0, 1), (0, 1)],
                   [(0, 1), (1, 2), (0, 1)], [(1, 2), (1, 2), (0, 1)],
                   [(0, 1), (2, 3), (0, 1)], [(1, 2), (2, 3), (0, 1)]],
       centers = [(1/2, 1/2, 1/2), (3/2, 1/2, 1/2), (1/2, 3/2, 1/2), (3/2, 3/2, 1/2),
                  (1/2, 5/2, 1/2), (3/2, 5/2, 1/2)],
       grids = Map.empty, ndim = 2, numProcs = 6,
       ranges = [(0, 2), (0, 3), (0, 1)], shapes = Map.empty, sizes = (8, 8, 1) \<rparr>"

text \<open>
  A source of two unit blocks side by side along x with one cell each, holding the
  face-centred field \<open>velx\<close> (two values per block; the two blocks disagree on the face they
  share), and a destination of one block of two cells over the same domain. The
  interpolation routine of \<open>env0\<close> answers below and above every source value.
\<close>

definition two_blocks :: SimulationData where
  "two_blocks =
     \<lparr> axisNumProcs = (2, 1, 1), blkPath = ''source.h5'',
       bndboxes = [[(0, 1), (0, 1), (0, 1)], [(1, 2), (0, 1), (0, 1)]],
       centers = [(1/2, 1/2, 1/2), (3/2, 1/2, 1/2)],
       grids = [''facex'' \<mapsto> (Some [[0, 1], [1, 2]], Some [[1/2]], Some [[1/2]])],
       ndim = 3, numProcs = 2,
       ranges = [(0, 2), (0, 1), (0, 1)],
       shapes = [''facex'' \<mapsto> [2, 1, 1, 2]], sizes = (1, 1, 1) \<rparr>"

definition one_block :: SimulationData where
  "one_block =
     \<lparr> axisNumProcs = (1, 1, 1), blkPath = ''block.h5'',
       bndboxes = [[(0, 2), (0, 1), (0, 1)]],
       centers = [(1, 1/2, 1/2)],
       grids = [''center'' \<mapsto> (Some [[1/2, 3/2]], Some [[1/2]], Some [[1/2]])],
       ndim = 3, numProcs = 1,
       ranges = [(0, 2), (0, 1), (0, 1)],
       shapes = [''center'' \<mapsto> [1, 1, 1, 2]], sizes = (2, 1, 1) \<rparr>"

definition velx_data :: ndarray where
  "velx_data = NDArray [2, 1, 1, 2]
     (\<lambda>idx. if idx = [0, 0, 0, 0] then 10 else if idx = [0, 0, 0, 1] then 11
             else if idx = [1, 0, 0, 0] then 99 else if idx = [1, 0, 0, 1] then 12 else 0)"

definition env0 :: env where
  "env0 =
     \<lparr> FACES = (''facex'', ''facey'', ''facez''),
       from_simple = (\<lambda>n. \<lparr> index_size = 1, index_range = [0] \<rparr>),
       mesh_width = (\<lambda>index axis. [(0, 0, 0)]),
       open_fails = (\<lambda>path. None),
       read = (\<lambda>path field. Inr velx_data),
       write_fails = (\<lambda>field block. None),
       interpn = (\<lambda>points vals query.
          Inr (NDArray [1, 1, 2] (\<lambda>idx. if idx = [0, 0, 0] then - 5 else 1000))),
       mem = (\<lambda>idx. 0) \<rparr>"

definition world0 :: world where
  "world0 = \<lparr> source = two_blocks, destination = one_block,
              flows = [(''velx'', (''center'', ''velx'', ''facex''))], trace = [] \<rparr>"

section \<open>Properties\<close>

subsection \<open>Basic facts\<close>

lemma bind_Inr [simp]: "bind (Inr x) f = f x"
  by (simp add: bind_def)

lemma bind_Inl [simp]: "bind (Inl e) f = Inl e"
  by (simp add: bind_def)

lemma bind_eq_Inr: "bind m f = Inr y \<longleftrightarrow> (\<exists>x. m = Inr x \<and> f x = Inr y)"
  by (cases m) auto

lemma length_unique: "length (unique xs) = card (set xs)"
  by (simp add: unique_def length_remdups_card_conv)

lemma set_unique [simp]: "set (unique xs) = set xs"
  by (simp add: unique_def)

subsection \<open>blocks\_from\_bbox\<close>

lemma map_fst_filter_enumerate:
  "map fst (filter (\<lambda>(i, x). P x) (enumerate n xs)) =
     filter (\<lambda>i. P (xs ! (i - n))) [n..<n + length xs]"
proof (induction xs arbitrary: n)
  case Nil
  then show ?case by simp
next
  case (Cons x xs)
  have "filter (\<lambda>i. P ((x # xs) ! (i - n))) [Suc n..<Suc n + length xs]
      = filter (\<lambda>i. P (xs ! (i - Suc n))) [Suc n..<Suc n + length xs]"
    by (rule filter_cong) (auto simp: nth_Cons')
  then show ?case
    using Cons.IH [of "Suc n"] by (simp add: upt_conv_Cons del: upt_Suc)
qed

lemma blocks_from_bbox_filter:
  "blocks_from_bbox sd box =
     filter (\<lambda>blk. all_overlaps (bndboxes sd ! blk) box) [0..<length (bndboxes sd)]"
  unfolding blocks_from_bbox_def
  using map_fst_filter_enumerate [of "\<lambda>bb. all_overlaps bb box" 0 "bndboxes sd"]
  by simp

lemma all_overlaps_iff:
  "all_overlaps bb box \<longleftrightarrow>
     (\<forall>ax < min (length bb) (length box).
        overlaps (fst (bb ! ax)) (snd (bb ! ax)) (fst (box ! ax)) (snd (box ! ax)))"
  by (auto simp: all_overlaps_def list_all_length)

lemma overlaps_closed: "overlaps ll lh hl hh \<longleftrightarrow> ll \<le> hh \<and> hl \<le> lh"
  by (auto simp: overlaps_def)

lemma blocks_from_bbox_bound:
  "blk \<in> set (blocks_from_bbox sd box) \<Longrightarrow> blk < length (bndboxes sd)"
  by (simp add: blocks_from_bbox_filter)

text \<open>
  Claim C2. \<^verbatim>\<open>blocks_from_bbox\<close> returns exactly the blocks whose bounding box overlaps the
  query box on every axis (of the axes both boxes have: \<^verbatim>\<open>zip\<close> pairs them) under the
  test \<open>overlaps l1 h1 l2 h2 = \<not> (h2 < l1 \<or> l2 > h1)\<close>. The test is closed: a block
  that on some axis \<open>t\<close> only touches the query box (its high bound is the box's low bound,
  or its low bound the box's high bound) and meets it on the other axes is returned.
\<close>

theorem blocks_from_bbox_exact:
  "set (blocks_from_bbox sd box) =
     {blk. blk < length (bndboxes sd) \<and>
        (\<forall>ax < min (length (bndboxes sd ! blk)) (length box).
           overlaps (fst (bndboxes sd ! blk ! ax)) (snd (bndboxes sd ! blk ! ax))
                    (fst (box ! ax)) (snd (box ! ax)))}
   \<and> (\<forall>blk t. blk < length (bndboxes sd) \<and> length (bndboxes sd ! blk) = length box \<and>
         t < length box \<and>
         (snd (bndboxes sd ! blk ! t) = fst (box ! t) \<or> fst (bndboxes sd ! blk ! t) = snd (box ! t)) \<and>
         (\<forall>ax < length box. fst (bndboxes sd ! blk ! ax) \<le> snd (box ! ax) \<and>
                             fst (box ! ax) \<le> snd (bndboxes sd ! blk ! ax))
       \<longrightarrow> blk \<in> set (blocks_from_bbox sd box))"
  by (auto simp: blocks_from_bbox_filter all_overlaps_iff overlaps_closed)

theorem blocks_from_bbox_exact_witness:
  "0 \<in> set (blocks_from_bbox lattice_2_3_1 [(1, 3/2), (0, 1/2), (0, 1)]) \<and>
   2 \<notin> set (blocks_from_bbox lattice_2_3_1 [(1, 3/2), (0, 1/2), (0, 1)])"
proof -
  let ?box = "[(1, 3/2), (0, 1/2), (0, 1)] :: bbox"
  have b: "bndboxes lattice_2_3_1 ! 0 = [(0, 1), (0, 1), (0, 1)]"
          "bndboxes lattice_2_3_1 ! 2 = [(0, 1), (1, 2), (0, 1)]"
          "length (bndboxes lattice_2_3_1) = 6"
    by (simp_all add: lattice_2_3_1_def)
  note inst = blocks_from_bbox_exact [of lattice_2_3_1 ?box]
  have "0 \<in> set (blocks_from_bbox lattice_2_3_1 ?box)"
    using inst [THEN conjunct2, rule_format, of 0 0] by (auto simp: b less_Suc_eq)
  moreover have "2 \<notin> set (blocks_from_bbox lattice_2_3_1 ?box)"
    using inst [THEN conjunct1] by (auto simp: b less_Suc_eq overlaps_def)
  ultimately show ?thesis by simp
qed

text \<open>
  Claim C10. The list \<^verbatim>\<open>blocks_from_bbox\<close> returns is strictly increasing, without
  duplicates, and each of its members is the position of a stored bounding box: it is
  the enumeration \<open>0, 1, ...\<close> of the stored bounding boxes with the blocks that do not
  overlap left out.
\<close>

theorem blocks_from_bbox_increasing:
  "sorted_wrt (<) (blocks_from_bbox sd box) \<and> distinct (blocks_from_bbox sd box) \<and>
   (\<forall>blk \<in> set (blocks_from_bbox sd box). blk < length (bndboxes sd)) \<and>
   blocks_from_bbox sd box =
     filter (\<lambda>blk. blk \<in> set (blocks_from_bbox sd box)) [0..<length (bndboxes sd)]"
proof -
  have s: "sorted_wrt (<) (blocks_from_bbox sd box)"
    unfolding blocks_from_bbox_filter by (rule sorted_wrt_filter) simp
  have "filter (\<lambda>blk. all_overlaps (bndboxes sd ! blk) box) [0..<length (bndboxes sd)] =
        filter (\<lambda>blk. blk \<in> set (filter (\<lambda>blk. all_overlaps (bndboxes sd ! blk) box)
                  [0..<length (bndboxes sd)])) [0..<length (bndboxes sd)]"
    by (rule filter_cong) auto
  with s show ?thesis
    by (auto simp: blocks_from_bbox_filter)
qed

theorem blocks_from_bbox_increasing_witness:
  "blocks_from_bbox lattice_2_3_1 [(1, 3/2), (0, 3/2), (0, 1)] = [0, 1, 2, 3] \<and>
   sorted_wrt (<) (blocks_from_bbox lattice_2_3_1 [(1, 3/2), (0, 3/2), (0, 1)]) \<and>
   list_all (\<lambda>blk. blk < 6) (blocks_from_bbox lattice_2_3_1 [(1, 3/2), (0, 3/2), (0, 1)])"
proof -
  let ?box = "[(1, 3/2), (0, 3/2), (0, 1)] :: bbox"
  have v: "blocks_from_bbox lattice_2_3_1 ?box = [0, 1, 2, 3]"
    by (simp add: blocks_from_bbox_def lattice_2_3_1_def enumerate_eq_zip upt_rec
        all_overlaps_def overlaps_def)
  have n: "length (bndboxes lattice_2_3_1) = 6"
    by (simp add: lattice_2_3_1_def)
  have "sorted_wrt (<) (blocks_from_bbox lattice_2_3_1 ?box) \<and>
        (\<forall>blk \<in> set (blocks_from_bbox lattice_2_3_1 ?box). blk < length (bndboxes lattice_2_3_1))"
    using blocks_from_bbox_increasing [of lattice_2_3_1 ?box] by blast
  then show ?thesis
    by (simp add: n list_all_iff v)
qed

subsection \<open>face\_shift and face\_flat\_shape\<close>

lemma face_shift_cases:
  "face_shift (f0, f1, f2) face =
     (if face = f2 then (0, 0, 1) else if face = f1 then (0, 1, 0)
      else if face = f0 then (1, 0, 0) else (0, 0, 0))"
  by (simp add: face_shift_def)

text \<open>
  Claim C9. For every location name that is none of the three face names (the name of the
  cell centre, or a name that is not a location at all), \<^verbatim>\<open>face_shift\<close> returns
  (0, 0, 0): nothing is rejected.
\<close>

theorem face_shift_default:
  "face \<noteq> f0 \<Longrightarrow> face \<noteq> f1 \<Longrightarrow> face \<noteq> f2 \<Longrightarrow> face_shift (f0, f1, f2) face = (0, 0, 0)"
  by (simp add: face_shift_cases)

theorem face_shift_default_witness:
  "face_shift (''facex'', ''facey'', ''facez'') ''center'' = (0, 0, 0) \<and>
   face_shift (''facex'', ''facey'', ''facez'') ''no such location'' = (0, 0, 0)"
  using face_shift_default [of "''center''" "''facex''" "''facey''" "''facez''"]
        face_shift_default [of "''no such location''" "''facex''" "''facey''" "''facez''"]
  by simp

lemma centers_sliced_valid:
  "valid_blocks sd blocks \<Longrightarrow> centers_sliced sd blocks = Inr (sliced_rows sd blocks)"
  by (auto simp: valid_blocks_def centers_sliced_def sliced_rows_def take_rows_def list_all_iff
      split: option.splits)

text \<open>
  Claim C4. For a subset of blocks of the topology (None: all blocks) and a location,
  \<^verbatim>\<open>face_flat_shape\<close> is, per axis, the number of distinct block-centre coordinates of the
  subset along the axis times the block size of the axis plus the shift of the axis; the
  shift is 1 on the axis of a face-centred location and 0 elsewhere, and 0 on every axis
  for any other location. The example of the claim is the witness.
\<close>

theorem face_flat_shape_formula:
  "(valid_blocks sd blocks \<longrightarrow>
      face_flat_shape fs sd blocks face =
        Inr (map (\<lambda>axis. card (axis_of axis ` set (sliced_rows sd blocks))
                            * (triple_list (sizes sd) ! axis)
                          + triple_list (face_shift fs face) ! axis) [0, 1, 2]))
   \<and> (distinct [f0, f1, f2] \<longrightarrow>
        face_shift (f0, f1, f2) f0 = (1, 0, 0) \<and>
        face_shift (f0, f1, f2) f1 = (0, 1, 0) \<and>
        face_shift (f0, f1, f2) f2 = (0, 0, 1))
   \<and> (other \<notin> {f0, f1, f2} \<longrightarrow> face_shift (f0, f1, f2) other = (0, 0, 0))"
proof -
  have shp: "face_flat_shape fs sd blocks face =
        Inr (map (\<lambda>axis. card (axis_of axis ` set (sliced_rows sd blocks))
                            * (triple_list (sizes sd) ! axis)
                          + triple_list (face_shift fs face) ! axis) [0, 1, 2])"
    if "valid_blocks sd blocks"
  proof -
    obtain sx sy sz where sz: "sizes sd = (sx, sy, sz)" by (cases "sizes sd") auto
    obtain a b c where sh: "face_shift fs face = (a, b, c)"
      by (cases "face_shift fs face") auto
    show ?thesis
      using that
      by (simp add: face_flat_shape_def extent_unique_def centers_unique_def centers_sliced_valid
          length_unique triple_list_def sz sh)
  qed
  show ?thesis
    using shp by (auto simp: face_shift_cases)
qed

theorem face_flat_shape_example:
  "face_flat_shape (''facex'', ''facey'', ''facez'') lattice_2_3_1 None ''facex''
     = Inr [2 * 8 + 1, 3 * 8, 1 * 1]
   \<and> face_shift (''facex'', ''facey'', ''facez'') ''facey'' = (0, 1, 0)
   \<and> face_shift (''facex'', ''facey'', ''facez'') ''center'' = (0, 0, 0)"
proof -
  have v: "valid_blocks lattice_2_3_1 None" by (simp add: valid_blocks_def)
  have d: "distinct [''facex'', ''facey'', ''facez'']" by simp
  have n: "''center'' \<notin> {''facex'', ''facey'', ''facez''}" by simp
  have c0: "card (axis_of 0 ` set (sliced_rows lattice_2_3_1 None)) = 2"
    by (simp add: sliced_rows_def lattice_2_3_1_def axis_of_def card_insert_if)
  have c1: "card (axis_of (Suc 0) ` set (sliced_rows lattice_2_3_1 None)) = 3"
    by (simp add: sliced_rows_def lattice_2_3_1_def axis_of_def card_insert_if)
  have c2: "card (axis_of 2 ` set (sliced_rows lattice_2_3_1 None)) = 1"
    by (simp add: sliced_rows_def lattice_2_3_1_def axis_of_def card_insert_if)
  have s: "sizes lattice_2_3_1 = (8, 8, 1)" by (simp add: lattice_2_3_1_def)
  from face_flat_shape_formula [where sd = lattice_2_3_1 and blocks = None
      and fs = "(''facex'', ''facey'', ''facez'')" and face = "''facex''"
      and ?f0.0 = "''facex''" and ?f1.0 = "''facey''" and ?f2.0 = "''facez''"
      and other = "''center''"] v d n
  show ?thesis
    by (simp add: c0 c1 c2 s triple_list_def)
qed

subsection \<open>interp\_blocks: the check of the dimensionalities\<close>

text \<open>
  Claim C3. When the dimensionalities of destination and source differ, \<^verbatim>\<open>interp_blocks\<close>
  raises the LibraryError for incompatible grids (the spec's IncompatibleGridError) and
  leaves the state as it found it: the trace is unchanged, so no storage was opened for
  reading or writing and no dataset was declared.
\<close>

theorem interp_blocks_incompatible:
  "ndim (destination w) \<noteq> ndim (source w) \<Longrightarrow>
     interp_blocks E nofile w =
       (Inl (LibraryError ''Incompatible source and destination grids for interpolation!''), w)"
  by (simp add: interp_blocks_def Let_def)

subsection \<open>interp\_blocks: the state it leaves, and the clipped result\<close>

lemma extends_refl: "extends P w w"
  by (simp add: extends_def)

lemma extends_trans: "extends P w w' \<Longrightarrow> extends P w' w'' \<Longrightarrow> extends P w w''"
  by (auto simp: extends_def)

lemma extends_emit: "P ev \<Longrightarrow> extends P w (emit ev w)"
  by (simp add: extends_def emit_def)

lemma extends_mono: "extends P w w' \<Longrightarrow> (\<And>ev. P ev \<Longrightarrow> Q ev) \<Longrightarrow> extends Q w w'"
  by (auto simp: extends_def list_all_iff)

lemma create_datasets_extends:
  "create_datasets E index fls out w = (r, w') \<Longrightarrow> extends (\<lambda>ev. \<not> is_write ev) w w'"
proof (induction fls arbitrary: out w)
  case Nil
  then show ?case by (simp add: extends_refl)
next
  case (Cons fl fls)
  obtain field location a b where fl: "fl = (field, (location, a, b))"
    by (cases fl) auto
  show ?case
  proof (cases "shapes (destination w) location")
    case None
    with Cons.prems fl show ?thesis by (simp add: extends_refl)
  next
    case (Some shp)
    with Cons.prems fl have
      "create_datasets E index fls (out(field \<mapsto> numpy_empty (mem E) (index_size index # drop 1 shp)))
         (emit (Create_dataset field shp) w) = (r, w')"
      by simp
    from Cons.IH [OF this] show ?thesis
      by (rule extends_trans [OF extends_emit, rotated]) (simp add: is_write_def)
  qed
qed

lemma fold_max_ge: "(x::real) \<le> fold max xs x \<and> (\<forall>y\<in>set xs. y \<le> fold max xs x)"
proof (induction xs arbitrary: x)
  case Nil
  then show ?case by simp
next
  case (Cons a xs)
  have "max a x \<le> fold max xs (max a x)" using Cons.IH [of "max a x"] by simp
  then show ?case using Cons.IH [of "max a x"] by auto
qed

lemma fold_min_le: "fold min xs (x::real) \<le> x \<and> (\<forall>y\<in>set xs. fold min xs x \<le> y)"
proof (induction xs arbitrary: x)
  case Nil
  then show ?case by simp
next
  case (Cons a xs)
  have "fold min xs (min a x) \<le> min a x" using Cons.IH [of "min a x"] by simp
  then show ?case using Cons.IH [of "min a x"] by auto
qed

lemma amin_le_amax: "amin a = Inr lo \<Longrightarrow> amax a = Inr hi \<Longrightarrow> lo \<le> hi"
proof -
  assume a: "amin a = Inr lo" "amax a = Inr hi"
  then obtain x xs where e: "elements a = x # xs"
    by (cases "elements a") (auto simp: amin_def)
  with a have "lo = fold min xs x" "hi = fold max xs x"
    by (auto simp: amin_def amax_def)
  moreover have "fold min xs x \<le> x" "x \<le> fold max xs x"
    using fold_min_le [of xs x] fold_max_ge [of x xs] by auto
  ultimately show ?thesis by simp
qed

lemma clip_bounds: "lo \<le> hi \<Longrightarrow> lo \<le> item (clip r hi lo) idx \<and> item (clip r hi lo) idx \<le> hi"
  by (simp add: clip_def)

lemma new_axis_items: "new_axis r = Inr r' \<Longrightarrow> \<exists>idx'. item r' idx = item r idx'"
  by (auto simp: new_axis_def split: if_splits)

lemma interp_field_Some:
  assumes "interp_field E src dst blocks index_uniq index_flat width (face, source_field, source_face)
             = Inr (Some r)"
  shows "\<exists>source_shape values lo hi.
           face_flat_shape (FACES E) src (Some blocks) source_face = Inr source_shape \<and>
           local_values E src source_field (face_shift (FACES E) source_face) source_shape
             index_uniq blocks = Inr values \<and>
           amin values = Inr lo \<and> amax values = Inr hi \<and> all_items lo hi r"
proof -
  from assms obtain source_shape where
    s: "face_flat_shape (FACES E) src (Some blocks) source_face = Inr source_shape"
    by (auto simp: interp_field_def Let_def bind_eq_Inr)
  show ?thesis
  proof (cases "ndim src = 3")
    case True
    with assms s obtain vals r0 hi lo where
      "local_values E src source_field (face_shift (FACES E) source_face) source_shape
             index_uniq blocks = Inr vals"
      "amax vals = Inr hi" "amin vals = Inr lo" "r = clip r0 hi lo"
      by (auto simp: interp_field_def Let_def bind_eq_Inr)
    then show ?thesis
      using s amin_le_amax [of vals lo hi] clip_bounds [of lo hi r0]
      by (auto simp: all_items_def)
  next
    case False
    with assms s have two: "ndim src = 2"
      by (auto simp: interp_field_def Let_def bind_eq_Inr split: if_splits)
    with assms s False obtain vals r0 hi lo where v:
      "local_values E src source_field (face_shift (FACES E) source_face) source_shape
             index_uniq blocks = Inr vals"
      "amax vals = Inr hi" "amin vals = Inr lo" "new_axis (clip r0 hi lo) = Inr r"
      by (auto simp: interp_field_def Let_def bind_eq_Inr)
    have "all_items lo hi r"
      unfolding all_items_def
    proof
      fix idx
      from new_axis_items [OF v(4), of idx] obtain idx' where
        "item r idx = item (clip r0 hi lo) idx'" by blast
      then show "lo \<le> item r idx \<and> item r idx \<le> hi"
        using amin_le_amax [OF v(3) v(2)] clip_bounds [of lo hi r0 idx'] by simp
    qed
    with v s show ?thesis by blast
  qed
qed

subsection \<open>interp\_blocks: what is written\<close>

lemma broadcast_to_items: "broadcast_to d ts = Inr src \<Longrightarrow> \<exists>idx. src r = item d idx"
  by (auto simp: broadcast_to_def Let_def split: if_splits)

lemma set_row_sub_items:
  assumes "set_row a step r = Inr a'" "sub a' step = Inr row" "all_items lo hi r"
  shows "all_items lo hi row"
proof -
  from assms(1) obtain n ns src where
    a: "shape a = n # ns" "step < n" "broadcast_to r ns = Inr src"
       "a' = NDArray (shape a) (\<lambda>idx. case idx of [] \<Rightarrow> item a idx
                               | i # rest \<Rightarrow> if i = step then src rest else item a idx)"
    by (auto simp: set_row_def bind_eq_Inr split: list.splits if_splits)
  with assms(2) have "row = NDArray ns src"
    by (auto simp: sub_def)
  have "lo \<le> src idx \<and> src idx \<le> hi" for idx
  proof -
    from broadcast_to_items [OF a(3), of idx] obtain idx' where "src idx = item r idx'" by blast
    with assms(3) show ?thesis by (simp add: all_items_def)
  qed
  with \<open>row = NDArray ns src\<close> show ?thesis
    by (simp add: all_items_def)
qed

lemma all_items_elements: "all_items lo hi r \<Longrightarrow> list_all (\<lambda>v. lo \<le> v \<and> v \<le> hi) (elements r)"
  by (auto simp: all_items_def elements_def list_all_iff)

lemma field_event_mono:
  "field_event E src blocks iu block fls ev \<Longrightarrow> set fls \<subseteq> set fls' \<Longrightarrow>
   field_event E src blocks iu block fls' ev"
  by (cases ev) (auto simp: field_event_def; blast)+

lemma store_field_cases:
  "store_field E field step block r out w = (res, w') \<Longrightarrow>
     (w' = w \<and> (\<exists>e. res = Inl e)) \<or>
     (\<exists>a a' row. out field = Some a \<and> set_row a step r = Inr a' \<and> sub a' step = Inr row \<and>
        w' = emit (Write_partial field row block) w \<and>
        (res = Inr (out(field \<mapsto> a')) \<or> (\<exists>e. res = Inl e)))"
  by (auto simp: store_field_def split: option.splits sum.splits)

lemma field_loop_extends:
  "field_loop E step block width blocks iu ifl fls out w = (res, w') \<Longrightarrow>
     extends (field_event E (source w) blocks iu block fls) w w'"
proof (induction fls arbitrary: out w)
  case Nil
  then show ?case by (simp add: extends_refl)
next
  case (Cons p fls)
  obtain field face sfield sface where p: "p = (field, (face, sfield, sface))"
    by (cases p) auto
  let ?P = "field_event E (source w) blocks iu block (p # fls)"
  show ?case
  proof (cases "interp_field E (source w) (destination w) blocks iu ifl width (face, sfield, sface)")
    case (Inl e)
    with Cons.prems p show ?thesis by (simp add: extends_refl)
  next
    case (Inr ro)
    show ?thesis
    proof (cases ro)
      case None
      with Inr Cons.prems p have
        "field_loop E step block width blocks iu ifl fls out w = (res, w')" by simp
      from Cons.IH [OF this] show ?thesis
        by (rule extends_mono) (auto intro: field_event_mono)
    next
      case (Some r)
      obtain res1 w1 where s: "store_field E field step block r out w = (res1, w1)"
        by (cases "store_field E field step block r out w") auto
      from interp_field_Some [OF Inr [unfolded Some]] obtain source_shape vals lo hi where v:
        "face_flat_shape (FACES E) (source w) (Some blocks) sface = Inr source_shape"
        "local_values E (source w) sfield (face_shift (FACES E) sface) source_shape iu blocks = Inr vals"
        "amin vals = Inr lo" "amax vals = Inr hi" "all_items lo hi r"
        by blast
      have e1: "extends ?P w w1"
        using store_field_cases [OF s]
      proof
        assume "w1 = w \<and> (\<exists>e. res1 = Inl e)"
        then show ?thesis by (simp add: extends_refl)
      next
        assume "\<exists>a a' row. out field = Some a \<and> set_row a step r = Inr a' \<and> sub a' step = Inr row \<and>
          w1 = emit (Write_partial field row block) w \<and>
          (res1 = Inr (out(field \<mapsto> a')) \<or> (\<exists>e. res1 = Inl e))"
        then obtain a a' row where r: "set_row a step r = Inr a'" "sub a' step = Inr row"
          "w1 = emit (Write_partial field row block) w" by blast
        have "all_items lo hi row" using set_row_sub_items [OF r(1) r(2) v(5)] .
        with v p have "?P (Write_partial field row block)"
          by (simp add: field_event_def)
            (rule exI [of _ face], rule exI [of _ sfield], rule exI [of _ sface], auto)
        with r(3) show ?thesis by (simp add: extends_emit)
      qed
      show ?thesis
      proof (cases res1)
        case (Inl e)
        with Cons.prems p Inr Some s have "w' = w1" by simp
        with e1 show ?thesis by simp
      next
        case (Inr out1)
        with Cons.prems p \<open>interp_field E (source w) (destination w) blocks iu ifl width (face, sfield, sface) = Inr ro\<close> Some s
        have "field_loop E step block width blocks iu ifl fls out1 w1 = (res, w')" by simp
        from Cons.IH [OF this] have "extends (field_event E (source w1) blocks iu block fls) w1 w'" .
        moreover have "source w1 = source w" using e1 by (simp add: extends_def)
        ultimately have "extends (field_event E (source w) blocks iu block fls) w1 w'" by simp
        then have "extends ?P w1 w'"
          by (rule extends_mono) (auto intro: field_event_mono)
        with e1 show ?thesis by (rule extends_trans)
      qed
    qed
  qed
qed

lemma field_event_block_event:
  assumes "field_event E src (blocks_from_bbox src bbox) iu block fls ev"
      and "index_unique src (blocks_from_bbox src bbox) = Inr iu"
  shows "block_event E src fls block bbox ev"
proof (cases ev)
  case (Write_partial field row b)
  with assms(1) obtain face source_field source_face source_shape vals lo hi where
    f: "b = block" "(field, (face, source_field, source_face)) \<in> set fls"
      "face_flat_shape (FACES E) src (Some (blocks_from_bbox src bbox)) source_face = Inr source_shape"
      "local_values E src source_field (face_shift (FACES E) source_face) source_shape
               iu (blocks_from_bbox src bbox) = Inr vals"
      "amin vals = Inr lo" "amax vals = Inr hi" "all_items lo hi row"
    by (auto simp: field_event_def)
  have "in_source_range E src bbox source_field source_face row"
    using f(3-6) assms(2) all_items_elements [OF f(7)]
    by (simp add: in_source_range_def Let_def)
  with f(1,2) Write_partial show ?thesis
    by (auto simp: block_event_def list_ex_iff)
qed (simp_all add: block_event_def)

lemma block_step_extends:
  assumes "block_step E (step, block, width, bbox) out w = (res, w')"
  shows "extends (block_event E (source w) (flows w) block bbox) w w'"
proof -
  let ?blocks = "blocks_from_bbox (source w) bbox"
  show ?thesis
  proof (cases "index_unique (source w) ?blocks")
    case (Inl e)
    with assms show ?thesis by (simp add: block_step_def extends_refl)
  next
    case iu: (Inr index_uniq)
    show ?thesis
    proof (cases "index_flatten (source w) (Some ?blocks)")
      case (Inl e)
      with assms iu show ?thesis by (simp add: block_step_def extends_refl)
    next
      case (Inr index_flat)
      obtain res1 w1 where
        fl: "field_loop E step block width ?blocks index_uniq index_flat (flows w) out w = (res1, w1)"
        by (cases "field_loop E step block width ?blocks index_uniq index_flat (flows w) out w") auto
      from field_loop_extends [OF fl]
      have e1: "extends (block_event E (source w) (flows w) block bbox) w w1"
        by (rule extends_mono) (rule field_event_block_event [OF _ iu])
      show ?thesis
      proof (cases res1)
        case (Inl e)
        with assms iu Inr fl have "w' = w1" by (simp add: block_step_def)
        with e1 show ?thesis by simp
      next
        case (Inr out1)
        with assms iu \<open>index_flatten (source w) (Some ?blocks) = Inr index_flat\<close> fl
        have "w' = emit Progress w1" by (simp add: block_step_def)
        moreover have "extends (block_event E (source w) (flows w) block bbox) w1 (emit Progress w1)"
          by (rule extends_emit) (simp add: block_event_def)
        ultimately show ?thesis
          using e1 by (auto intro: extends_trans)
      qed
    qed
  qed
qed

lemma entry_event_mono:
  "entry_event E src fls entries ev \<Longrightarrow> set entries \<subseteq> set entries' \<Longrightarrow>
     entry_event E src fls entries' ev"
  by (cases ev) (auto simp: entry_event_def list_ex_iff)

lemma block_loop_extends:
  "block_loop E entries out w = (res, w') \<Longrightarrow>
     extends (entry_event E (source w) (flows w) entries) w w'"
proof (induction entries arbitrary: out w)
  case Nil
  then show ?case by (simp add: extends_refl)
next
  case (Cons entry entries)
  obtain step block width bbox where en: "entry = (step, block, width, bbox)"
    by (cases entry) auto
  let ?P = "entry_event E (source w) (flows w) (entry # entries)"
  obtain res1 w1 where bs: "block_step E entry out w = (res1, w1)"
    by (cases "block_step E entry out w") auto
  have e1: "extends ?P w w1"
    using block_step_extends [OF bs [unfolded en]]
    by (rule extends_mono) (auto simp: entry_event_def en split: io_event.splits)
  show ?case
  proof (cases res1)
    case (Inl e)
    with Cons.prems bs have "w' = w1" by simp
    with e1 show ?thesis by simp
  next
    case (Inr out1)
    with Cons.prems bs have "block_loop E entries out1 w1 = (res, w')" by simp
    from Cons.IH [OF this]
    have "extends (entry_event E (source w1) (flows w1) entries) w1 w'" .
    moreover have "source w1 = source w" "flows w1 = flows w"
      using e1 by (simp_all add: extends_def)
    ultimately have "extends (entry_event E (source w) (flows w) entries) w1 w'" by simp
    then have "extends ?P w1 w'"
      by (rule extends_mono) (auto intro: entry_event_mono)
    with e1 show ?thesis by (rule extends_trans)
  qed
qed

lemma take_rows_Inr:
  "take_rows a rows = Inr xs \<longleftrightarrow> (\<forall>r\<in>set rows. r < length a) \<and> xs = map (\<lambda>r. a ! r) rows"
  by (auto simp: take_rows_def)

lemma with_body_extends:
  assumes "with_body E index widths w = (res, w')"
  shows "extends (written_ok E w) w w'"
proof -
  obtain res1 w1 where cd: "create_datasets E index (flows w) Map.empty w = (res1, w1)"
    by (cases "create_datasets E index (flows w) Map.empty w") auto
  from create_datasets_extends [OF cd]
  have e1: "extends (written_ok E w) w w1"
    by (rule extends_mono) (auto simp: written_ok_def is_write_def split: io_event.splits)
  then have same: "source w1 = source w" "destination w1 = destination w" "flows w1 = flows w"
    by (simp_all add: extends_def)
  show ?thesis
  proof (cases res1)
    case (Inl e)
    with assms cd have "w' = w1" by (simp add: with_body_def)
    with e1 show ?thesis by simp
  next
    case (Inr out)
    show ?thesis
    proof (cases "take_rows (bndboxes (destination w1)) (index_range index)")
      case (Inl e)
      with assms cd Inr have "w' = w1" by (simp add: with_body_def)
      with e1 show ?thesis by simp
    next
      case boxes: (Inr boxes)
      let ?entries = "enumerate 0 (zip (index_range index) (zip widths boxes))"
      from boxes have b: "\<forall>r\<in>set (index_range index). r < length (bndboxes (destination w))"
        "boxes = map (\<lambda>r. bndboxes (destination w) ! r) (index_range index)"
        by (simp_all add: take_rows_Inr same)
      from assms cd Inr boxes have "block_loop E ?entries out w1 = (res, w')"
        by (simp add: with_body_def)
      from block_loop_extends [OF this]
      have "extends (entry_event E (source w) (flows w) ?entries) w1 w'"
        by (simp add: same)
      then have "extends (written_ok E w) w1 w'"
      proof (rule extends_mono)
        fix ev
        assume ev: "entry_event E (source w) (flows w) ?entries ev"
        show "written_ok E w ev"
        proof (cases ev)
          case (Write_partial field row blk)
          with ev obtain step block width bbox where
            en: "(step, block, width, bbox) \<in> set ?entries"
            and be: "block_event E (source w) (flows w) block bbox ev"
            by (auto simp: entry_event_def list_ex_iff)
          from en have "step < length (zip (index_range index) (zip widths boxes))"
            "zip (index_range index) (zip widths boxes) ! step = (block, width, bbox)"
            by (auto simp: in_set_enumerate_eq)
          then have "step < length (index_range index)" "step < length boxes"
            "block = index_range index ! step" "bbox = boxes ! step"
            by auto
          then obtain n where n: "n < length (index_range index)" "n < length boxes"
            "block = index_range index ! n" "bbox = boxes ! n"
            by blast
          with b have "block < length (bndboxes (destination w))"
            "bbox = bndboxes (destination w) ! block"
            by auto
          with be Write_partial show ?thesis
            by (auto simp: written_ok_def block_event_def)
        qed (simp_all add: written_ok_def)
      qed
      with e1 show ?thesis by (rule extends_trans)
    qed
  qed
qed

lemma written_ok_cong:
  "source w1 = source w \<Longrightarrow> destination w1 = destination w \<Longrightarrow> flows w1 = flows w \<Longrightarrow>
     written_ok E w1 = written_ok E w"
  by (rule ext) (simp add: written_ok_def split: io_event.splits)

lemma interp_blocks_extends:
  assumes "interp_blocks E nofile w = (res, w')"
  shows "extends (written_ok E w) w w'"
proof (cases "ndim (destination w) \<noteq> ndim (source w)")
  case True
  with assms show ?thesis by (simp add: interp_blocks_def Let_def extends_refl)
next
  case False
  let ?index = "from_simple E (numProcs (destination w))"
  let ?widths = "mesh_width E ?index (axisNumProcs (destination w))"
  let ?w1 = "emit (Open_source (blkPath (source w))) w"
  let ?w2 = "emit (Open_destination (blkPath (destination w)) nofile) ?w1"
  let ?w3 = "emit (Open_progress (index_size ?index)) ?w2"
  have ok: "written_ok E w ev" if "\<not> is_write ev" for ev
    using that by (cases ev) (simp_all add: written_ok_def is_write_def)
  have e1: "extends (written_ok E w) w ?w1"
    by (rule extends_emit) (simp add: written_ok_def)
  have e2: "extends (written_ok E w) w ?w2"
    by (rule extends_trans [OF e1 extends_emit]) (simp add: written_ok_def)
  have e3: "extends (written_ok E w) w ?w3"
    by (rule extends_trans [OF e2 extends_emit]) (simp add: written_ok_def)
  have s1 [simp]: "source ?w1 = source w" "destination ?w1 = destination w"
    by (simp_all add: emit_def)
  have s2 [simp]: "source ?w2 = source w" "destination ?w2 = destination w"
    by (simp_all add: emit_def)
  show ?thesis
  proof (cases "open_fails E (blkPath (source w))")
    case (Some e)
    with assms False have "w' = ?w1" by (simp add: interp_blocks_def Let_def)
    with e1 show ?thesis by simp
  next
    case None
    show ?thesis
    proof (cases "open_fails E (blkPath (destination w))")
      case (Some e)
      with assms False None have "w' = emit (Close_source (blkPath (source w))) ?w2"
        by (simp add: interp_blocks_def Let_def)
      moreover have "extends (written_ok E w) ?w2 (emit (Close_source (blkPath (source w))) ?w2)"
        by (rule extends_emit) (simp add: written_ok_def)
      ultimately show ?thesis
        using e2 by (auto intro: extends_trans)
    next
      case d: None
      obtain r w4 where wb: "with_body E ?index ?widths ?w3 = (r, w4)"
        by (cases "with_body E ?index ?widths ?w3") auto
      have "written_ok E ?w3 = written_ok E w"
        by (rule written_ok_cong) (simp_all add: emit_def)
      with with_body_extends [OF wb] have e4: "extends (written_ok E w) ?w3 w4" by simp
      from assms False None d wb have
        "w' = emit (Close_source (blkPath (source w4)))
               (emit (Close_destination (blkPath (destination w4))) (emit Close_progress w4))"
        by (simp add: interp_blocks_def Let_def)
      moreover have "extends (written_ok E w) w4 (emit ev1 (emit ev2 (emit ev3 w4)))"
        if "\<not> is_write ev1" "\<not> is_write ev2" "\<not> is_write ev3" for ev1 ev2 ev3
        using that by (blast intro: extends_trans extends_emit ok)
      ultimately have "extends (written_ok E w) w4 w'"
        by (simp add: is_write_def)
      with e3 e4 show ?thesis by (blast intro: extends_trans)
    qed
  qed
qed

subsection \<open>interp\_blocks: the returned arrays\<close>

lemma keeps_refl: "keeps S out out"
  by (simp add: keeps_def)

lemma keeps_trans: "keeps S out out' \<Longrightarrow> keeps T out' out'' \<Longrightarrow> keeps (S \<union> T) out out''"
  unfolding keeps_def by (metis UnI1 UnI2)

lemma keeps_sub:
  assumes "keeps S out out'" "out f = Some a" "step \<notin> S"
  shows "\<exists>a'. out' f = Some a' \<and> sub a' step = sub a step"
proof -
  from assms obtain a' where a': "out' f = Some a'" "shape a' = shape a"
    "\<And>rest. item a' (step # rest) = item a (step # rest)"
    unfolding keeps_def by blast
  then have "sub a' step = sub a step"
    by (simp add: sub_def split: list.splits)
  with a' show ?thesis by simp
qed

lemma row_in_range_keeps:
  "row_in_range E src out step bbox fl \<Longrightarrow> keeps S out out' \<Longrightarrow> step \<notin> S \<Longrightarrow>
     row_in_range E src out' step bbox fl"
proof -
  assume r: "row_in_range E src out step bbox fl" and k: "keeps S out out'" and s: "step \<notin> S"
  obtain field face sfield sface where fl: "fl = (field, (face, sfield, sface))"
    by (cases fl) auto
  from r fl obtain a where a: "out field = Some a"
    by (auto simp: row_in_range_def split: option.splits)
  from keeps_sub [OF k a s] obtain a' where "out' field = Some a'" "sub a' step = sub a step"
    by blast
  with r fl a show ?thesis
    by (simp add: row_in_range_def)
qed

lemma set_row_keeps:
  "set_row a step r = Inr a' \<Longrightarrow>
     shape a' = shape a \<and> (\<forall>i rest. i \<noteq> step \<longrightarrow> item a' (i # rest) = item a (i # rest))"
  by (auto simp: set_row_def bind_eq_Inr split: list.splits if_splits)

lemma store_field_keeps:
  assumes "store_field E field step block r out w = (Inr out', w')"
  shows "keeps {step} out out'"
proof -
  from assms obtain a a' where a: "out field = Some a" "set_row a step r = Inr a'"
    "out' = out(field \<mapsto> a')"
    by (auto simp: store_field_def split: option.splits sum.splits)
  show ?thesis
    unfolding keeps_def using a set_row_keeps [OF a(2)] by auto
qed

lemma interp_field_None:
  "interp_field E src dst blocks iu ifl width fl = Inr None \<Longrightarrow> ndim src \<noteq> 3 \<and> ndim src \<noteq> 2"
  by (cases fl) (auto simp: interp_field_def Let_def bind_eq_Inr split: if_splits)

lemma field_loop_keeps:
  "field_loop E step block width blocks iu ifl fls out w = (Inr out', w') \<Longrightarrow>
     keeps {step} out out' \<and> (\<forall>f. f \<notin> fst ` set fls \<longrightarrow> out' f = out f)"
proof (induction fls arbitrary: out w)
  case Nil
  then show ?case by (simp add: keeps_refl)
next
  case (Cons p fls)
  obtain field fl where p: "p = (field, fl)" by (cases p) auto
  show ?case
  proof (cases "interp_field E (source w) (destination w) blocks iu ifl width fl")
    case (Inl e)
    with Cons.prems p show ?thesis by simp
  next
    case (Inr ro)
    show ?thesis
    proof (cases ro)
      case None
      with Inr Cons.prems p have
        "field_loop E step block width blocks iu ifl fls out w = (Inr out', w')" by simp
      from Cons.IH [OF this] show ?thesis by auto
    next
      case (Some r)
      obtain res1 w1 where s: "store_field E field step block r out w = (res1, w1)"
        by (cases "store_field E field step block r out w") auto
      with Cons.prems p Inr Some obtain out1 where o: "res1 = Inr out1"
        "field_loop E step block width blocks iu ifl fls out1 w1 = (Inr out', w')"
        by (cases res1) auto
      from s o have k1: "keeps {step} out out1" by (auto intro: store_field_keeps)
      from s o have u1: "\<forall>f. f \<noteq> field \<longrightarrow> out1 f = out f"
        by (auto simp: store_field_def split: option.splits sum.splits)
      from Cons.IH [OF o(2)] k1 u1 p show ?thesis
        using keeps_trans [of "{step}" out out1 "{step}" out'] by auto
    qed
  qed
qed

lemma field_loop_rows:
  assumes "field_loop E step block width blocks iu ifl fls out w = (Inr out', w')"
    and "ndim (source w) = 2 \<or> ndim (source w) = 3"
    and "distinct (map fst fls)"
    and "index_unique (source w) blocks = Inr iu"
    and "blocks = blocks_from_bbox (source w) bbox"
  shows "\<forall>fl\<in>set fls. row_in_range E (source w) out' step bbox fl"
  using assms
proof (induction fls arbitrary: out w)
  case Nil
  then show ?case by simp
next
  case (Cons p fls)
  obtain field face sfield sface where p: "p = (field, (face, sfield, sface))"
    by (cases p) auto
  let ?fl = "(face, sfield, sface)"
  from Cons.prems(1) p obtain ro where
    i: "interp_field E (source w) (destination w) blocks iu ifl width ?fl = Inr ro"
    by (cases "interp_field E (source w) (destination w) blocks iu ifl width ?fl") auto
  with interp_field_None [of E "source w" "destination w" blocks iu ifl width ?fl] Cons.prems(2)
  obtain r where r: "ro = Some r" by (cases ro) auto
  obtain res1 w1 where s: "store_field E field step block r out w = (res1, w1)"
    by (cases "store_field E field step block r out w") auto
  with Cons.prems(1) p i r obtain out1 where o: "res1 = Inr out1"
    "field_loop E step block width blocks iu ifl fls out1 w1 = (Inr out', w')"
    by (cases res1) auto
  from s o obtain a a' row where a: "out field = Some a" "set_row a step r = Inr a'"
    "sub a' step = Inr row" "out1 = out(field \<mapsto> a')"
    by (auto simp: store_field_def split: option.splits sum.splits)
  from interp_field_Some [OF i [unfolded r]] obtain source_shape vals lo hi where v:
    "face_flat_shape (FACES E) (source w) (Some blocks) sface = Inr source_shape"
    "local_values E (source w) sfield (face_shift (FACES E) sface) source_shape iu blocks = Inr vals"
    "amin vals = Inr lo" "amax vals = Inr hi" "all_items lo hi r"
    by blast
  have "in_source_range E (source w) bbox sfield sface row"
    using v(1-4) Cons.prems(4,5) all_items_elements [OF set_row_sub_items [OF a(2) a(3) v(5)]]
    by (simp add: in_source_range_def Let_def)
  with a have here: "row_in_range E (source w) out1 step bbox p"
    by (simp add: row_in_range_def p)
  have w1: "source w1 = source w"
    using s by (auto simp: store_field_def emit_def split: option.splits sum.splits)
  from Cons.prems p have "field \<notin> fst ` set fls" by auto
  with field_loop_keeps [OF o(2)] have "out' field = out1 field" by blast
  with here have "row_in_range E (source w) out' step bbox p"
    by (simp add: row_in_range_def p)
  moreover have "\<forall>fl\<in>set fls. row_in_range E (source w) out' step bbox fl"
    using Cons.IH [OF o(2)] Cons.prems(2-5) w1 by simp
  ultimately show ?case by simp
qed

lemma block_step_source:
  "block_step E entry out w = (res, w') \<Longrightarrow>
     source w' = source w \<and> destination w' = destination w \<and> flows w' = flows w"
  using block_step_extends [of E "fst entry" "fst (snd entry)" "fst (snd (snd entry))"
      "snd (snd (snd entry))" out w res w']
  by (simp add: extends_def)

lemma block_step_rows:
  assumes "block_step E (step, block, width, bbox) out w = (Inr out', w')"
    and "ndim (source w) = 2 \<or> ndim (source w) = 3"
    and "distinct (map fst (flows w))"
  shows "(\<forall>fl\<in>set (flows w). row_in_range E (source w) out' step bbox fl) \<and> keeps {step} out out'"
proof -
  let ?blocks = "blocks_from_bbox (source w) bbox"
  from assms(1) obtain iu where iu: "index_unique (source w) ?blocks = Inr iu"
    by (cases "index_unique (source w) ?blocks") (auto simp: block_step_def)
  with assms(1) obtain ifl where ifl: "index_flatten (source w) (Some ?blocks) = Inr ifl"
    by (cases "index_flatten (source w) (Some ?blocks)") (auto simp: block_step_def)
  obtain res1 w1 where
    fl: "field_loop E step block width ?blocks iu ifl (flows w) out w = (res1, w1)"
    by (cases "field_loop E step block width ?blocks iu ifl (flows w) out w") auto
  with assms(1) iu ifl have "res1 = Inr out'"
    by (cases res1) (auto simp: block_step_def)
  with fl have f: "field_loop E step block width ?blocks iu ifl (flows w) out w = (Inr out', w1)"
    by simp
  from field_loop_rows [OF f assms(2) assms(3) iu refl] field_loop_keeps [OF f]
  show ?thesis by simp
qed

lemma block_loop_keeps:
  "block_loop E entries out w = (Inr out', w') \<Longrightarrow> keeps (fst ` set entries) out out'"
proof (induction entries arbitrary: out w)
  case Nil
  then show ?case by (simp add: keeps_refl)
next
  case (Cons entry entries)
  obtain step block width bbox where en: "entry = (step, block, width, bbox)"
    by (cases entry) auto
  obtain res1 w1 where bs: "block_step E entry out w = (res1, w1)"
    by (cases "block_step E entry out w") auto
  with Cons.prems obtain out1 where o: "res1 = Inr out1"
    "block_loop E entries out1 w1 = (Inr out', w')"
    by (cases res1) auto
  have "keeps {step} out out1"
  proof -
    from bs o en have b: "block_step E (step, block, width, bbox) out w = (Inr out1, w1)" by simp
    let ?blocks = "blocks_from_bbox (source w) bbox"
    from b obtain iu where iu: "index_unique (source w) ?blocks = Inr iu"
      by (cases "index_unique (source w) ?blocks") (auto simp: block_step_def)
    with b obtain ifl where ifl: "index_flatten (source w) (Some ?blocks) = Inr ifl"
      by (cases "index_flatten (source w) (Some ?blocks)") (auto simp: block_step_def)
    obtain r2 w2 where
      fl: "field_loop E step block width ?blocks iu ifl (flows w) out w = (r2, w2)"
      by (cases "field_loop E step block width ?blocks iu ifl (flows w) out w") auto
    with b iu ifl have "r2 = Inr out1"
      by (cases r2) (auto simp: block_step_def)
    with fl field_loop_keeps show ?thesis by blast
  qed
  from keeps_trans [OF this Cons.IH [OF o(2)]] show ?case
    by (simp add: en)
qed

lemma block_loop_rows:
  assumes "block_loop E entries out w = (Inr out', w')"
    and "ndim (source w) = 2 \<or> ndim (source w) = 3"
    and "distinct (map fst (flows w))"
    and "distinct (map fst entries)"
  shows "\<forall>(step, block, width, bbox)\<in>set entries.
           \<forall>fl\<in>set (flows w). row_in_range E (source w) out' step bbox fl"
  using assms
proof (induction entries arbitrary: out w)
  case Nil
  then show ?case by simp
next
  case (Cons entry entries)
  obtain step block width bbox where en: "entry = (step, block, width, bbox)"
    by (cases entry) auto
  obtain res1 w1 where bs: "block_step E entry out w = (res1, w1)"
    by (cases "block_step E entry out w") auto
  with Cons.prems(1) obtain out1 where o: "res1 = Inr out1"
    "block_loop E entries out1 w1 = (Inr out', w')"
    by (cases res1) auto
  from block_step_source [OF bs] have same: "source w1 = source w" "flows w1 = flows w"
    by simp_all
  from bs o en have "block_step E (step, block, width, bbox) out w = (Inr out1, w1)" by simp
  from block_step_rows [OF this Cons.prems(2,3)]
  have here: "\<forall>fl\<in>set (flows w). row_in_range E (source w) out1 step bbox fl"
    by simp
  from Cons.prems(4) en have "step \<notin> fst ` set entries" by auto
  with here block_loop_keeps [OF o(2)]
  have "\<forall>fl\<in>set (flows w). row_in_range E (source w) out' step bbox fl"
    by (blast intro: row_in_range_keeps)
  moreover have "\<forall>(step, block, width, bbox)\<in>set entries.
           \<forall>fl\<in>set (flows w). row_in_range E (source w) out' step bbox fl"
    using Cons.IH [OF o(2)] Cons.prems(2-4) same by simp
  ultimately show ?case by (simp add: en)
qed

lemma with_body_rows:
  assumes "with_body E index widths w = (Inr out, w')"
    and "ndim (source w) = 2 \<or> ndim (source w) = 3"
    and "distinct (map fst (flows w))"
  shows "list_all (\<lambda>(step, block).
        list_all (row_in_range E (source w) out step (bndboxes (destination w) ! block)) (flows w))
       (enumerate 0 (map fst (zip (index_range index) widths)))"
proof -
  obtain res1 w1 where cd: "create_datasets E index (flows w) Map.empty w = (res1, w1)"
    by (cases "create_datasets E index (flows w) Map.empty w") auto
  from create_datasets_extends [OF cd]
  have same: "source w1 = source w" "destination w1 = destination w" "flows w1 = flows w"
    by (simp_all add: extends_def)
  from assms(1) cd obtain out0 where o: "res1 = Inr out0"
    by (cases res1) (auto simp: with_body_def)
  with assms(1) cd obtain boxes where
    boxes: "take_rows (bndboxes (destination w1)) (index_range index) = Inr boxes"
    by (cases "take_rows (bndboxes (destination w1)) (index_range index)") (auto simp: with_body_def)
  let ?entries = "enumerate 0 (zip (index_range index) (zip widths boxes))"
  from boxes have b: "boxes = map (\<lambda>r. bndboxes (destination w) ! r) (index_range index)"
    by (simp_all add: take_rows_Inr same)
  from assms(1) cd o boxes have bl: "block_loop E ?entries out0 w1 = (Inr out, w')"
    by (simp add: with_body_def)
  have d: "distinct (map fst ?entries)" by simp
  from block_loop_rows [OF bl _ _ d] assms(2,3) same
  have rows: "\<forall>(step, block, width, bbox)\<in>set ?entries.
           \<forall>fl\<in>set (flows w). row_in_range E (source w) out step bbox fl"
    by simp
  show ?thesis
    unfolding list_all_iff
  proof (intro ballI, clarify)
    fix step block fl
    assume sb: "(step, block) \<in> set (enumerate 0 (map fst (zip (index_range index) widths)))"
      and fl: "fl \<in> set (flows w)"
    from sb have s: "step < length (index_range index)" "step < length widths"
      "block = index_range index ! step"
      by (auto simp: in_set_enumerate_eq)
    with b have "(step, block, widths ! step, bndboxes (destination w) ! block) \<in> set ?entries"
      by (auto simp: in_set_enumerate_eq)
    with rows fl show "row_in_range E (source w) out step (bndboxes (destination w) ! block) fl"
      by blast
  qed
qed

lemma interp_blocks_rows:
  assumes "interp_blocks E nofile w = (Inr out, w')"
    and "ndim (source w) = 2 \<or> ndim (source w) = 3"
    and "distinct (map fst (flows w))"
  shows "returned_ok E w out"
proof -
  let ?index = "from_simple E (numProcs (destination w))"
  let ?widths = "mesh_width E ?index (axisNumProcs (destination w))"
  let ?w3 = "emit (Open_progress (index_size ?index))
               (emit (Open_destination (blkPath (destination w)) nofile)
                  (emit (Open_source (blkPath (source w))) w))"
  have s3: "source ?w3 = source w" "destination ?w3 = destination w" "flows ?w3 = flows w"
    by (simp_all add: emit_def)
  from assms(1) have eq: "ndim (destination w) = ndim (source w)"
    by (auto simp: interp_blocks_def Let_def split: if_splits)
  with assms(1) have "open_fails E (blkPath (source w)) = None"
    by (cases "open_fails E (blkPath (source w))") (auto simp: interp_blocks_def Let_def emit_def)
  moreover from this assms(1) eq have "open_fails E (blkPath (destination w)) = None"
    by (cases "open_fails E (blkPath (destination w))") (auto simp: interp_blocks_def Let_def emit_def)
  ultimately obtain w4 where "with_body E ?index ?widths ?w3 = (Inr out, w4)"
    using assms(1) eq
    by (cases "with_body E ?index ?widths ?w3") (auto simp: interp_blocks_def Let_def emit_def)
  from with_body_rows [OF this] assms(2,3) show ?thesis
    by (simp add: s3 returned_ok_def assigned_def Let_def)
qed

subsection \<open>interp\_blocks: the clamp\<close>

lemma run0:
  "written_rows (trace (snd (interp_blocks env0 False world0))) = [(''velx'', 0, [10, 99])]"
  by code_simp

lemma run0_ok: "\<not> isl (fst (interp_blocks env0 False world0))"
  by code_simp

text \<open>
  Claim C1. Whatever \<^verbatim>\<open>interp_blocks\<close> returns or raises, every block it has written to the
  destination storage is the block of a destination bounding box, for a field of the
  mapping, and each of its elements lies between the least and the greatest element of
  the local source array assembled from exactly the source blocks that overlap that
  bounding box. When it returns (the dimensionality being 2 or 3; the keys of the mapping
  are distinct, as those of a dictionary are), the same holds of every row of the returned
  arrays. The interpolation routine is arbitrary, so the bound does not depend on where
  the query points lie or on what the routine extrapolates.
\<close>

theorem interp_blocks_clamped:
  assumes "interp_blocks E nofile w = (res, w')"
  shows "list_all (written_ok E w) (drop (length (trace w)) (trace w')) \<and>
         (\<forall>out. res = Inr out \<and> (ndim (source w) = 2 \<or> ndim (source w) = 3) \<and>
                distinct (map fst (flows w)) \<longrightarrow> returned_ok E w out)"
proof -
  from interp_blocks_extends [OF assms]
  have "list_all (written_ok E w) (drop (length (trace w)) (trace w'))"
    by (auto simp: extends_def)
  moreover have "returned_ok E w out"
    if "res = Inr out" "ndim (source w) = 2 \<or> ndim (source w) = 3" "distinct (map fst (flows w))"
    for out
    using interp_blocks_rows [of E nofile w out w'] assms that by simp
  ultimately show ?thesis by blast
qed

theorem interp_blocks_clamped_witness:
  "list_all (written_ok env0 world0) (trace (snd (interp_blocks env0 False world0))) \<and>
   written_rows (trace (snd (interp_blocks env0 False world0))) = [(''velx'', 0, [10, 99])] \<and>
   (case fst (interp_blocks env0 False world0) of Inl e \<Rightarrow> False | Inr out \<Rightarrow> returned_ok env0 world0 out)"
proof -
  obtain res w' where run: "interp_blocks env0 False world0 = (res, w')"
    by (cases "interp_blocks env0 False world0") auto
  from run0_ok run obtain out where out: "res = Inr out"
    by (cases res) auto
  have d: "ndim (source world0) = 3" "distinct (map fst (flows world0))" "trace world0 = []"
    by (simp_all add: world0_def two_blocks_def)
  from interp_blocks_clamped [OF run] out d
  have "list_all (written_ok env0 world0) (trace w')" "returned_ok env0 world0 out"
    by simp_all
  with run out run0 show ?thesis by simp
qed

subsection \<open>index\_unique and index\_flatten on blocks of the topology\<close>

lemma first_where_Some:
  "x \<in> set xs \<Longrightarrow> \<exists>i. first_where xs x = Some i \<and> i < length xs \<and> xs ! i = x"
  by (induction xs) auto

lemma where00_position:
  "x \<in> set xs \<Longrightarrow> where00 xs x = Inr (position xs x) \<and> position xs x < length xs \<and>
     xs ! position xs x = x"
  using first_where_Some [of x xs] by (auto simp: where00_def position_def)

lemma sequence_map_Inr:
  "(\<And>x. x \<in> set xs \<Longrightarrow> f x = Inr (g x)) \<Longrightarrow> sequence (map f xs) = Inr (map g xs)"
  by (induction xs) auto

lemma index_unique_valid:
  assumes "\<forall>b\<in>set bs. b < length (centers sd)"
  shows "index_unique sd bs = Inr (map (logical_index sd (Some bs)) bs)"
proof -
  let ?rows = "map (\<lambda>b. centers sd ! b) bs"
  have v: "valid_blocks sd (Some bs)" using assms by (simp add: valid_blocks_def list_all_iff)
  have r: "sliced_rows sd (Some bs) = ?rows" by (simp add: sliced_rows_def)
  have cu: "centers_unique sd (Some bs) =
      Inr (map (\<lambda>axis. unique (map (axis_of axis) ?rows)) [0, 1, 2])"
    by (simp add: centers_unique_def centers_sliced_valid [OF v] r)
  have tr: "take_rows (centers sd) bs = Inr ?rows"
    using assms by (simp add: take_rows_def)
  have "sequence (map (\<lambda>block.
           bind (where00 (unique (map (axis_of 0) ?rows)) (axis_of 0 block)) (\<lambda>i.
           bind (where00 (unique (map (axis_of 1) ?rows)) (axis_of 1 block)) (\<lambda>j.
           bind (where00 (unique (map (axis_of 2) ?rows)) (axis_of 2 block)) (\<lambda>k. Inr (i, j, k)))))
         ?rows)
      = Inr (map (\<lambda>block.
           (position (unique (map (axis_of 0) ?rows)) (axis_of 0 block),
            position (unique (map (axis_of 1) ?rows)) (axis_of 1 block),
            position (unique (map (axis_of 2) ?rows)) (axis_of 2 block))) ?rows)"
  proof (rule sequence_map_Inr)
    fix block assume "block \<in> set ?rows"
    then have "axis_of ax block \<in> set (unique (map (axis_of ax) ?rows))" for ax
      by auto
    from where00_position [OF this] show "bind (where00 (unique (map (axis_of 0) ?rows)) (axis_of 0 block)) (\<lambda>i.
           bind (where00 (unique (map (axis_of 1) ?rows)) (axis_of 1 block)) (\<lambda>j.
           bind (where00 (unique (map (axis_of 2) ?rows)) (axis_of 2 block)) (\<lambda>k. Inr (i, j, k))))
       = Inr (position (unique (map (axis_of 0) ?rows)) (axis_of 0 block),
            position (unique (map (axis_of 1) ?rows)) (axis_of 1 block),
            position (unique (map (axis_of 2) ?rows)) (axis_of 2 block))"
      by simp
  qed
  then show ?thesis
    by (simp add: index_unique_def cu tr logical_index_def r comp_def)
qed

lemma logical_index_bound:
  assumes "\<forall>b\<in>set bs. b < length (centers sd)" "b \<in> set bs"
    "logical_index sd (Some bs) b = (i, j, k)"
  shows "i < card (axis_of 0 ` set (sliced_rows sd (Some bs))) \<and>
         j < card (axis_of 1 ` set (sliced_rows sd (Some bs))) \<and>
         k < card (axis_of 2 ` set (sliced_rows sd (Some bs)))"
proof -
  let ?rows = "sliced_rows sd (Some bs)"
  have "centers sd ! b \<in> set ?rows" using assms(2) by (auto simp: sliced_rows_def)
  then have "axis_of ax (centers sd ! b) \<in> set (unique (map (axis_of ax) ?rows))" for ax
    by auto
  from where00_position [OF this] assms(3) show ?thesis
    by (auto simp: logical_index_def length_unique)
qed

lemma index_flatten_valid:
  assumes "valid_blocks sd blocks"
  shows "\<exists>ifl. index_flatten sd blocks = Inr ifl"
proof -
  let ?rows = "sliced_rows sd blocks"
  have cs: "centers_sliced sd blocks = Inr ?rows" by (rule centers_sliced_valid [OF assms])
  have cu: "centers_unique sd None = Inr (map (\<lambda>axis. unique (map (axis_of axis) (centers sd))) [0, 1, 2])"
    by (simp add: centers_unique_def centers_sliced_def)
  have sub: "set ?rows \<subseteq> set (centers sd)"
    using assms by (auto simp: sliced_rows_def valid_blocks_def list_all_iff split: option.splits)
  have inner: "sequence (map (\<lambda>coord.
               bind (centers_unique sd None) (\<lambda>u. where00 (u ! axis) (axis_of axis coord))) ?rows)
        = Inr (map (\<lambda>coord. position (unique (map (axis_of axis) (centers sd))) (axis_of axis coord)) ?rows)"
    if "axis \<in> {0, 1, 2}" for axis
  proof (rule sequence_map_Inr)
    fix coord assume "coord \<in> set ?rows"
    with sub have "axis_of axis coord \<in> set (unique (map (axis_of axis) (centers sd)))" by auto
    from where00_position [OF this] that
    show "bind (centers_unique sd None) (\<lambda>u. where00 (u ! axis) (axis_of axis coord))
        = Inr (position (unique (map (axis_of axis) (centers sd))) (axis_of axis coord))"
      by (auto simp: cu)
  qed
  have "sequence (map (\<lambda>axis.
           bind (sequence (map (\<lambda>coord.
               bind (centers_unique sd None) (\<lambda>u. where00 (u ! axis) (axis_of axis coord))) ?rows))
             (\<lambda>is. Inr (unique is))) [0, 1, 2])
     = Inr (map (\<lambda>axis. unique (map (\<lambda>coord. position (unique (map (axis_of axis) (centers sd)))
                (axis_of axis coord)) ?rows)) [0, 1, 2])"
    by (rule sequence_map_Inr) (use inner in auto)
  then show ?thesis
    by (simp add: index_flatten_def cs)
qed

subsection \<open>interp\_blocks: other dimensionalities, and the inputs\<close>

lemma extends_no_write:
  "extends (\<lambda>ev. \<not> is_write ev) w w' \<Longrightarrow> filter is_write (trace w') = filter is_write (trace w)"
  by (auto simp: extends_def list_all_iff filter_empty_conv)

lemma create_datasets_success:
  assumes "\<forall>fl\<in>set fls. fst (snd fl) \<in> dom (shapes (destination w))" "unwritten E out"
  shows "\<exists>out' w'. create_datasets E index fls out w = (Inr out', w') \<and> unwritten E out' \<and>
           dom out' = dom out \<union> fst ` set fls"
  using assms
proof (induction fls arbitrary: out w)
  case Nil
  then show ?case by simp
next
  case (Cons fl fls)
  obtain field location a b where fl: "fl = (field, (location, a, b))"
    by (cases fl) auto
  with Cons.prems obtain shp where shp: "shapes (destination w) location = Some shp"
    by auto
  let ?out = "out(field \<mapsto> numpy_empty (mem E) (index_size index # drop 1 shp))"
  let ?w = "emit (Create_dataset field shp) w"
  have "unwritten E ?out"
    using Cons.prems(2) by (auto simp: unwritten_def numpy_empty_def)
  moreover have "\<forall>fl\<in>set fls. fst (snd fl) \<in> dom (shapes (destination ?w))"
    using Cons.prems(1) by (simp add: emit_def)
  ultimately obtain out' w' where
    "create_datasets E index fls ?out ?w = (Inr out', w')" "unwritten E out'"
    "dom out' = dom ?out \<union> fst ` set fls"
    using Cons.IH [of ?w ?out] by blast
  then show ?case
    using fl shp by auto
qed

lemma face_flat_shape_valid:
  "valid_blocks sd blocks \<Longrightarrow> \<exists>shp. face_flat_shape fs sd blocks face = Inr shp"
  by (simp add: face_flat_shape_def extent_unique_def centers_unique_def centers_sliced_valid)

lemma interp_field_pass:
  assumes "ndim src \<noteq> 2" "ndim src \<noteq> 3" "valid_blocks src (Some blocks)"
  shows "interp_field E src dst blocks iu ifl width fl = Inr None"
proof -
  obtain face sfield sface where fl: "fl = (face, sfield, sface)" by (cases fl) auto
  from face_flat_shape_valid [OF assms(3)] obtain shp where
    "face_flat_shape (FACES E) src (Some blocks) sface = Inr shp" by blast
  with assms(1,2) fl show ?thesis
    by (simp add: interp_field_def Let_def)
qed

lemma field_loop_pass:
  assumes "ndim (source w) \<noteq> 2" "ndim (source w) \<noteq> 3" "valid_blocks (source w) (Some blocks)"
  shows "field_loop E step block width blocks iu ifl fls out w = (Inr out, w)"
proof (induction fls)
  case Nil
  then show ?case by simp
next
  case (Cons p fls)
  obtain field fl where p: "p = (field, fl)" by (cases p) auto
  show ?case
    using Cons interp_field_pass [OF assms, of E "destination w" iu ifl width fl]
    by (simp add: p)
qed

lemma blocks_from_bbox_valid:
  "length (bndboxes sd) \<le> length (centers sd) \<Longrightarrow> valid_blocks sd (Some (blocks_from_bbox sd box))"
  using blocks_from_bbox_bound [of _ sd box]
  by (fastforce simp: valid_blocks_def list_all_iff)

lemma block_step_pass:
  assumes "ndim (source w) \<noteq> 2" "ndim (source w) \<noteq> 3"
    "length (bndboxes (source w)) \<le> length (centers (source w))"
  shows "block_step E entry out w = (Inr out, emit Progress w)"
proof -
  obtain step block width bbox where en: "entry = (step, block, width, bbox)"
    by (cases entry) auto
  let ?blocks = "blocks_from_bbox (source w) bbox"
  have v: "valid_blocks (source w) (Some ?blocks)"
    by (rule blocks_from_bbox_valid [OF assms(3)])
  then have "index_unique (source w) ?blocks = Inr (map (logical_index (source w) (Some ?blocks)) ?blocks)"
    by (intro index_unique_valid) (simp add: valid_blocks_def list_all_iff)
  moreover from index_flatten_valid [OF v] obtain ifl where
    "index_flatten (source w) (Some ?blocks) = Inr ifl" by blast
  ultimately show ?thesis
    using field_loop_pass [OF assms(1,2) v]
    by (simp add: block_step_def en Let_def)
qed

lemma block_loop_pass:
  assumes "ndim (source w) \<noteq> 2" "ndim (source w) \<noteq> 3"
    "length (bndboxes (source w)) \<le> length (centers (source w))"
  shows "\<exists>w'. block_loop E entries out w = (Inr out, w') \<and> extends (\<lambda>ev. \<not> is_write ev) w w'"
  using assms
proof (induction entries arbitrary: w)
  case Nil
  then show ?case by (simp add: extends_refl)
next
  case (Cons entry entries)
  let ?w = "emit Progress w"
  have s: "source ?w = source w" by (simp add: emit_def)
  from Cons.IH [of ?w] Cons.prems s obtain w' where
    w': "block_loop E entries out ?w = (Inr out, w')" "extends (\<lambda>ev. \<not> is_write ev) ?w w'"
    by auto
  have "extends (\<lambda>ev. \<not> is_write ev) w ?w"
    by (rule extends_emit) (simp add: is_write_def)
  with w' have "extends (\<lambda>ev. \<not> is_write ev) w w'" by (blast intro: extends_trans)
  with w' block_step_pass [OF Cons.prems, of E entry out] show ?case by simp
qed

lemma interp_blocks_pass:
  assumes "ndim (source w) \<noteq> 2" "ndim (source w) \<noteq> 3"
    and "ndim (destination w) = ndim (source w)"
    and "open_fails E (blkPath (source w)) = None"
    and "open_fails E (blkPath (destination w)) = None"
    and "\<forall>fl\<in>set (flows w). fst (snd fl) \<in> dom (shapes (destination w))"
    and "\<forall>b\<in>set (index_range (from_simple E (numProcs (destination w)))).
           b < length (bndboxes (destination w))"
    and "length (bndboxes (source w)) \<le> length (centers (source w))"
  shows "\<exists>out w'. interp_blocks E nofile w = (Inr out, w') \<and>
           filter is_write (trace w') = filter is_write (trace w) \<and>
           unwritten E out \<and> dom out = fst ` set (flows w)"
proof -
  let ?index = "from_simple E (numProcs (destination w))"
  let ?widths = "mesh_width E ?index (axisNumProcs (destination w))"
  let ?w3 = "emit (Open_progress (index_size ?index))
               (emit (Open_destination (blkPath (destination w)) nofile)
                  (emit (Open_source (blkPath (source w))) w))"
  have s3: "source ?w3 = source w" "destination ?w3 = destination w" "flows ?w3 = flows w"
    by (simp_all add: emit_def)
  have t3: "filter is_write (trace ?w3) = filter is_write (trace w)"
    by (simp add: emit_def is_write_def)
  have "unwritten E Map.empty" by (simp add: unwritten_def)
  with create_datasets_success [of "flows w" ?w3 E Map.empty ?index] assms(6)
  obtain out w4 where cd: "create_datasets E ?index (flows w) Map.empty ?w3 = (Inr out, w4)"
    "unwritten E out" "dom out = fst ` set (flows w)"
    by (auto simp: s3)
  from create_datasets_extends [OF cd(1)]
  have e4: "extends (\<lambda>ev. \<not> is_write ev) ?w3 w4" .
  then have s4: "source w4 = source w" "destination w4 = destination w"
    by (simp_all add: extends_def s3)
  have tr: "take_rows (bndboxes (destination w4)) (index_range ?index)
      = Inr (map (\<lambda>r. bndboxes (destination w) ! r) (index_range ?index))"
    using assms(7) by (simp add: take_rows_def s4)
  from block_loop_pass [of w4 E _ out] assms(1,2,8) s4
  obtain w5 where bl: "block_loop E (enumerate 0 (zip (index_range ?index)
       (zip ?widths (map (\<lambda>r. bndboxes (destination w) ! r) (index_range ?index))))) out w4
      = (Inr out, w5)" "extends (\<lambda>ev. \<not> is_write ev) w4 w5"
    by auto
  have wb: "with_body E ?index ?widths ?w3 = (Inr out, w5)"
    using cd(1) tr bl(1) by (simp add: with_body_def s3)
  let ?w' = "emit (Close_source (blkPath (source w5)))
               (emit (Close_destination (blkPath (destination w5))) (emit Close_progress w5))"
  have run: "interp_blocks E nofile w = (Inr out, ?w')"
    using assms(3,4,5) wb by (simp add: interp_blocks_def Let_def emit_def)
  have "filter is_write (trace w5) = filter is_write (trace w)"
    using extends_no_write [OF e4] extends_no_write [OF bl(2)] t3 by simp
  then have "filter is_write (trace ?w') = filter is_write (trace w)"
    by (simp add: emit_def is_write_def)
  with run cd(2,3) show ?thesis by blast
qed

lemma interp_field_not_Some:
  "ndim src \<noteq> 2 \<Longrightarrow> ndim src \<noteq> 3 \<Longrightarrow> interp_field E src dst blocks iu ifl width fl \<noteq> Inr (Some r)"
  by (cases fl) (auto simp: interp_field_def Let_def bind_eq_Inr)

lemma field_loop_other:
  assumes "ndim (source w) \<noteq> 2" "ndim (source w) \<noteq> 3"
  shows "field_loop E step block width blocks iu ifl fls out w = (res, w') \<Longrightarrow> w' = w"
proof (induction fls)
  case Nil
  then show ?case by simp
next
  case (Cons p fls)
  obtain field fl where p: "p = (field, fl)" by (cases p) auto
  show ?case
  proof (cases "interp_field E (source w) (destination w) blocks iu ifl width fl")
    case (Inl e)
    with Cons.prems p show ?thesis by simp
  next
    case (Inr ro)
    with interp_field_not_Some [OF assms, of E "destination w" blocks iu ifl width fl]
    have "ro = None" by (cases ro) auto
    with Inr Cons p show ?thesis by simp
  qed
qed

lemma block_step_other:
  assumes "ndim (source w) \<noteq> 2" "ndim (source w) \<noteq> 3"
    and "block_step E entry out w = (res, w')"
  shows "extends (\<lambda>ev. \<not> is_write ev) w w'"
proof -
  obtain step block width bbox where en: "entry = (step, block, width, bbox)"
    by (cases entry) auto
  let ?blocks = "blocks_from_bbox (source w) bbox"
  show ?thesis
  proof (cases "index_unique (source w) ?blocks")
    case (Inl e)
    with assms(3) en show ?thesis by (simp add: block_step_def extends_refl)
  next
    case iu: (Inr index_uniq)
    show ?thesis
    proof (cases "index_flatten (source w) (Some ?blocks)")
      case (Inl e)
      with assms(3) en iu show ?thesis by (simp add: block_step_def extends_refl)
    next
      case (Inr index_flat)
      obtain res1 w1 where
        fl: "field_loop E step block width ?blocks index_uniq index_flat (flows w) out w = (res1, w1)"
        by (cases "field_loop E step block width ?blocks index_uniq index_flat (flows w) out w") auto
      from field_loop_other [OF assms(1,2) fl] have w1: "w1 = w" .
      from assms(3) en iu Inr fl w1 have "w' = w \<or> w' = emit Progress w"
        by (cases res1) (auto simp: block_step_def)
      then show ?thesis
        by (auto simp: extends_refl is_write_def intro: extends_emit)
    qed
  qed
qed

lemma block_loop_other:
  assumes "ndim (source w) \<noteq> 2" "ndim (source w) \<noteq> 3"
    and "block_loop E entries out w = (res, w')"
  shows "extends (\<lambda>ev. \<not> is_write ev) w w'"
  using assms
proof (induction entries arbitrary: out w)
  case Nil
  then show ?case by (simp add: extends_refl)
next
  case (Cons entry entries)
  obtain res1 w1 where bs: "block_step E entry out w = (res1, w1)"
    by (cases "block_step E entry out w") auto
  from block_step_other [OF Cons.prems(1,2) bs]
  have e1: "extends (\<lambda>ev. \<not> is_write ev) w w1" .
  then have s: "source w1 = source w" by (simp add: extends_def)
  show ?case
  proof (cases res1)
    case (Inl e)
    with Cons.prems(3) bs have "w' = w1" by simp
    with e1 show ?thesis by simp
  next
    case (Inr out1)
    with Cons.prems(3) bs have "block_loop E entries out1 w1 = (res, w')" by simp
    from Cons.IH [OF _ _ this] Cons.prems(1,2) s
    have "extends (\<lambda>ev. \<not> is_write ev) w1 w'" by simp
    with e1 show ?thesis by (rule extends_trans)
  qed
qed

lemma interp_blocks_other:
  assumes "ndim (source w) \<noteq> 2" "ndim (source w) \<noteq> 3"
    and "interp_blocks E nofile w = (res, w')"
  shows "filter is_write (trace w') = filter is_write (trace w)"
proof (cases "ndim (destination w) \<noteq> ndim (source w)")
  case True
  with assms(3) show ?thesis by (simp add: interp_blocks_def Let_def)
next
  case False
  let ?index = "from_simple E (numProcs (destination w))"
  let ?widths = "mesh_width E ?index (axisNumProcs (destination w))"
  let ?w1 = "emit (Open_source (blkPath (source w))) w"
  let ?w2 = "emit (Open_destination (blkPath (destination w)) nofile) ?w1"
  let ?w3 = "emit (Open_progress (index_size ?index)) ?w2"
  have s3: "source ?w3 = source w" "destination ?w3 = destination w" "flows ?w3 = flows w"
    by (simp_all add: emit_def)
  have t: "filter is_write (trace ?w1) = filter is_write (trace w)"
    "filter is_write (trace ?w2) = filter is_write (trace w)"
    "filter is_write (trace ?w3) = filter is_write (trace w)"
    by (simp_all add: emit_def is_write_def)
  show ?thesis
  proof (cases "open_fails E (blkPath (source w))")
    case (Some e)
    with assms(3) False have "w' = ?w1" by (simp add: interp_blocks_def Let_def emit_def)
    with t show ?thesis by simp
  next
    case None
    show ?thesis
    proof (cases "open_fails E (blkPath (destination w))")
      case (Some e)
      with assms(3) False None have "w' = emit (Close_source (blkPath (source w))) ?w2"
        by (simp add: interp_blocks_def Let_def emit_def)
      with t show ?thesis by (simp add: emit_def is_write_def)
    next
      case d: None
      obtain r w4 where wb: "with_body E ?index ?widths ?w3 = (r, w4)"
        by (cases "with_body E ?index ?widths ?w3") auto
      have "extends (\<lambda>ev. \<not> is_write ev) ?w3 w4"
      proof -
        obtain res1 w5 where cd: "create_datasets E ?index (flows ?w3) Map.empty ?w3 = (res1, w5)"
          by (cases "create_datasets E ?index (flows ?w3) Map.empty ?w3") auto
        from create_datasets_extends [OF cd]
        have e5: "extends (\<lambda>ev. \<not> is_write ev) ?w3 w5" .
        then have s5: "source w5 = source w" by (simp add: extends_def s3)
        show ?thesis
        proof (cases res1)
          case (Inl e)
          with wb cd have "w4 = w5" by (simp add: with_body_def)
          with e5 show ?thesis by simp
        next
          case (Inr out)
          show ?thesis
          proof (cases "take_rows (bndboxes (destination w5)) (index_range ?index)")
            case (Inl e)
            with wb cd Inr have "w4 = w5" by (simp add: with_body_def)
            with e5 show ?thesis by simp
          next
            case boxes: (Inr boxes)
            with wb cd Inr have "block_loop E (enumerate 0 (zip (index_range ?index)
                (zip ?widths boxes))) out w5 = (r, w4)"
              by (simp add: with_body_def)
            from block_loop_other [OF _ _ this] assms(1,2) s5
            have "extends (\<lambda>ev. \<not> is_write ev) w5 w4" by simp
            with e5 show ?thesis by (rule extends_trans)
          qed
        qed
      qed
      from extends_no_write [OF this] t
      have t4: "filter is_write (trace w4) = filter is_write (trace w)" by simp
      from assms(3) False None d wb have
        "w' = emit (Close_source (blkPath (source w4)))
               (emit (Close_destination (blkPath (destination w4))) (emit Close_progress w4))"
        by (simp add: interp_blocks_def Let_def emit_def)
      with t4 show ?thesis by (simp add: emit_def is_write_def)
    qed
  qed
qed

text \<open>
  Claim C7. When the dimensionality of the source is neither 2 nor 3, \<^verbatim>\<open>interp_blocks\<close>
  writes no block to the destination storage, however the call ends. When moreover the
  destination has the same dimensionality, the storages can be opened, every location of
  the mapping has a dataset shape in the destination, the blocks of the worker are blocks
  of the destination and every source block has a centre, the call returns without an
  error, and every returned array is the allocation nothing was stored in: one array per
  field of the mapping.
\<close>

theorem interp_blocks_other_dimensionality:
  assumes "ndim (source w) \<noteq> 2" "ndim (source w) \<noteq> 3"
  shows "(\<forall>res w'. interp_blocks E nofile w = (res, w') \<longrightarrow>
            filter is_write (trace w') = filter is_write (trace w)) \<and>
         (ndim (destination w) = ndim (source w) \<and>
          open_fails E (blkPath (source w)) = None \<and>
          open_fails E (blkPath (destination w)) = None \<and>
          (\<forall>fl\<in>set (flows w). fst (snd fl) \<in> dom (shapes (destination w))) \<and>
          (\<forall>b\<in>set (index_range (from_simple E (numProcs (destination w)))).
             b < length (bndboxes (destination w))) \<and>
          length (bndboxes (source w)) \<le> length (centers (source w))
          \<longrightarrow> (\<exists>out w'. interp_blocks E nofile w = (Inr out, w') \<and>
                 filter is_write (trace w') = filter is_write (trace w) \<and>
                 unwritten E out \<and> dom out = fst ` set (flows w)))"
  using interp_blocks_other [OF assms, of E nofile] interp_blocks_pass [OF assms, of E nofile]
  by blast

text \<open>
  Claim C8. \<^verbatim>\<open>interp_blocks\<close> leaves the mapping and the two topologies as it found them,
  whether it returns or raises: in the state it leaves, \<open>flows\<close>, \<open>source\<close> and
  \<open>destination\<close> (with all their fields) are the ones it was called with.
\<close>

theorem interp_blocks_inputs_unchanged:
  "interp_blocks E nofile w = (res, w') \<Longrightarrow>
     flows w' = flows w \<and> source w' = source w \<and> destination w' = destination w"
  using interp_blocks_extends [of E nofile w res w'] by (simp add: extends_def)

subsection \<open>Runs on the concrete inputs\<close>

theorem interp_blocks_incompatible_witness:
  "interp_blocks env0 False (world0\<lparr>destination := lattice_2_3_1\<rparr>) =
     (Inl (LibraryError ''Incompatible source and destination grids for interpolation!''),
      world0\<lparr>destination := lattice_2_3_1\<rparr>) \<and>
   trace (snd (interp_blocks env0 False (world0\<lparr>destination := lattice_2_3_1\<rparr>))) = []"
proof -
  have "ndim (destination (world0\<lparr>destination := lattice_2_3_1\<rparr>))
          \<noteq> ndim (source (world0\<lparr>destination := lattice_2_3_1\<rparr>))"
    by (simp add: world0_def lattice_2_3_1_def two_blocks_def)
  from interp_blocks_incompatible [OF this, of env0 False] show ?thesis
    by (simp add: world0_def)
qed

theorem interp_blocks_other_dimensionality_witness:
  "\<not> isl (fst (interp_blocks env0 False
      (world0\<lparr>source := two_blocks\<lparr>ndim := 1\<rparr>, destination := one_block\<lparr>ndim := 1\<rparr>\<rparr>))) \<and>
   filter is_write (trace (snd (interp_blocks env0 False
      (world0\<lparr>source := two_blocks\<lparr>ndim := 1\<rparr>, destination := one_block\<lparr>ndim := 1\<rparr>\<rparr>)))) = []"
proof -
  let ?w = "world0\<lparr>source := two_blocks\<lparr>ndim := 1\<rparr>, destination := one_block\<lparr>ndim := 1\<rparr>\<rparr>"
  have n: "ndim (source ?w) \<noteq> 2" "ndim (source ?w) \<noteq> 3"
    by (simp_all add: world0_def two_blocks_def)
  have h: "ndim (destination ?w) = ndim (source ?w) \<and>
    open_fails env0 (blkPath (source ?w)) = None \<and>
    open_fails env0 (blkPath (destination ?w)) = None \<and>
    (\<forall>fl\<in>set (flows ?w). fst (snd fl) \<in> dom (shapes (destination ?w))) \<and>
    (\<forall>b\<in>set (index_range (from_simple env0 (numProcs (destination ?w)))).
           b < length (bndboxes (destination ?w))) \<and>
    length (bndboxes (source ?w)) \<le> length (centers (source ?w))"
    by (simp add: world0_def env0_def two_blocks_def one_block_def)
  from interp_blocks_other_dimensionality [OF n, of env0 False, THEN conjunct2, rule_format, OF h]
  obtain out w' where "interp_blocks env0 False ?w = (Inr out, w')"
    "filter is_write (trace w') = filter is_write (trace ?w)"
    by blast
  then show ?thesis by (simp add: world0_def)
qed

lemma run0_read_error:
  "(case fst (interp_blocks (env0\<lparr>read := \<lambda>path field. Inl IOError\<rparr>) False world0) of
      Inl e \<Rightarrow> e = IOError | Inr out \<Rightarrow> False)"
  by code_simp

theorem interp_blocks_inputs_unchanged_witness:
  "\<not> isl (fst (interp_blocks env0 False world0)) \<and>
   flows (snd (interp_blocks env0 False world0)) = [(''velx'', (''center'', ''velx'', ''facex''))] \<and>
   source (snd (interp_blocks env0 False world0)) = two_blocks \<and>
   destination (snd (interp_blocks env0 False world0)) = one_block \<and>
   (case fst (interp_blocks (env0\<lparr>read := \<lambda>path field. Inl IOError\<rparr>) False world0) of
      Inl e \<Rightarrow> e = IOError | Inr out \<Rightarrow> False) \<and>
   source (snd (interp_blocks (env0\<lparr>read := \<lambda>path field. Inl IOError\<rparr>) False world0)) = two_blocks \<and>
   destination (snd (interp_blocks (env0\<lparr>read := \<lambda>path field. Inl IOError\<rparr>) False world0)) = one_block"
proof -
  obtain r1 w1 where a: "interp_blocks env0 False world0 = (r1, w1)"
    by (cases "interp_blocks env0 False world0") auto
  obtain r2 w2 where b:
    "interp_blocks (env0\<lparr>read := \<lambda>path field. Inl IOError\<rparr>) False world0 = (r2, w2)"
    by (cases "interp_blocks (env0\<lparr>read := \<lambda>path field. Inl IOError\<rparr>) False world0") auto
  from interp_blocks_inputs_unchanged [OF a] interp_blocks_inputs_unchanged [OF b]
  show ?thesis
    using run0_ok run0_read_error a b by (simp add: world0_def)
qed

subsection \<open>The local source array\<close>

lemma strip_ones_id: "length ds \<le> n \<Longrightarrow> strip_ones n ds = ds"
  by (cases ds) auto

lemma clip_slices_exact:
  assumes "length sl = length shp" "\<forall>n<length shp. fst (sl ! n) \<le> snd (sl ! n) \<and> snd (sl ! n) \<le> shp ! n"
  shows "clip_slices shp sl = sl"
proof (rule nth_equalityI)
  show "length (clip_slices shp sl) = length sl"
    using assms(1) by (simp add: clip_slices_def)
next
  fix n assume "n < length (clip_slices shp sl)"
  then have n: "n < length shp" using assms(1) by (simp add: clip_slices_def)
  with assms have "fst (sl ! n) \<le> shp ! n" "snd (sl ! n) \<le> shp ! n" by (auto intro: order_trans)
  with n assms(1) show "clip_slices shp sl ! n = sl ! n"
    by (cases "sl ! n") (simp add: clip_slices_def min_def)
qed

lemma in_slices_offset:
  assumes "in_slices sl idx" "n < length sl"
  shows "offset_from sl idx ! n < snd (sl ! n) - fst (sl ! n)"
proof -
  from assms have l: "length idx = length sl" and
    b: "fst (sl ! n) \<le> idx ! n \<and> idx ! n < snd (sl ! n)"
    by (auto simp: in_slices_def list_all_length case_prod_beta)
  with assms(2) show ?thesis
    by (cases "sl ! n") (auto simp: offset_from_def)
qed

lemma broadcast_exact:
  assumes "shape d = map (\<lambda>(lo, hi). hi - lo) sl"
  shows "\<exists>src. broadcast_to d (map (\<lambda>(lo, hi). hi - lo) sl) = Inr src \<and>
           (\<forall>idx. in_slices sl idx \<longrightarrow> src (offset_from sl idx) = item d (offset_from sl idx))"
proof -
  let ?ts = "map (\<lambda>(lo, hi). hi - lo) sl"
  have st: "strip_ones (length sl) ?ts = ?ts"
    by (rule strip_ones_id) simp
  have bc: "broadcastable ?ts ?ts"
    by (simp add: broadcastable_def list_all_length)
  have "map (\<lambda>(di, ri). if di = 1 then 0 else ri) (zip ?ts (offset_from sl idx)) = offset_from sl idx"
    if "in_slices sl idx" for idx
  proof (rule nth_equalityI)
    from that have l: "length idx = length sl" by (simp add: in_slices_def)
    then show "length (map (\<lambda>(di, ri). if di = 1 then 0 else ri) (zip ?ts (offset_from sl idx)))
        = length (offset_from sl idx)"
      by (simp add: offset_from_def)
    fix n assume "n < length (map (\<lambda>(di, ri). if di = 1 then 0 else ri) (zip ?ts (offset_from sl idx)))"
    with l have n: "n < length sl" by (simp add: offset_from_def)
    from in_slices_offset [OF that n] n l
    show "map (\<lambda>(di, ri). if di = 1 then 0 else ri) (zip ?ts (offset_from sl idx)) ! n
        = offset_from sl idx ! n"
      by (cases "sl ! n") (auto simp: offset_from_def)
  qed
  then show ?thesis
    by (simp add: broadcast_to_def Let_def assms st bc)
qed

lemma set_slice_exact:
  assumes "exact (shape a) sl d"
  shows "\<exists>a'. set_slice a sl d = Inr a' \<and> shape a' = shape a \<and>
           (\<forall>idx. item a' idx = (if in_slices sl idx then item d (offset_from sl idx) else item a idx))"
proof -
  from assms have l: "length sl = length (shape a)"
    and c: "clip_slices (shape a) sl = sl"
    and s: "shape d = map (\<lambda>(lo, hi). hi - lo) sl"
    by (auto simp: exact_def intro: clip_slices_exact)
  from broadcast_exact [OF s] obtain src where
    src: "broadcast_to d (map (\<lambda>(lo, hi). hi - lo) sl) = Inr src"
      "\<And>idx. in_slices sl idx \<Longrightarrow> src (offset_from sl idx) = item d (offset_from sl idx)"
    by blast
  show ?thesis
    using l src by (simp add: set_slice_def c offset_from_def)
qed

lemma assemble_items:
  assumes "\<forall>p\<in>set ps. piece p = Inr (sl p, d p) \<and> exact (shape v0) (sl p) (d p)"
  shows "\<exists>v. assemble piece ps v0 = Inr v \<and> shape v = shape v0 \<and>
           (\<forall>n idx. n < length ps \<and> in_slices (sl (ps ! n)) idx \<and>
                (\<forall>m. n < m \<and> m < length ps \<longrightarrow> \<not> in_slices (sl (ps ! m)) idx)
              \<longrightarrow> item v idx = item (d (ps ! n)) (offset_from (sl (ps ! n)) idx)) \<and>
           (\<forall>idx. (\<forall>m<length ps. \<not> in_slices (sl (ps ! m)) idx) \<longrightarrow> item v idx = item v0 idx)"
  using assms
proof (induction ps arbitrary: v0)
  case Nil
  then show ?case by simp
next
  case (Cons p ps)
  from Cons.prems have p: "piece p = Inr (sl p, d p)" "exact (shape v0) (sl p) (d p)"
    by auto
  from set_slice_exact [OF p(2)] obtain v1 where v1:
    "set_slice v0 (sl p) (d p) = Inr v1" "shape v1 = shape v0"
    "\<And>idx. item v1 idx = (if in_slices (sl p) idx then item (d p) (offset_from (sl p) idx)
                            else item v0 idx)"
    by blast
  from Cons.prems v1(2) have "\<forall>q\<in>set ps. piece q = Inr (sl q, d q) \<and> exact (shape v1) (sl q) (d q)"
    by simp
  from Cons.IH [OF this] obtain v where v:
    "assemble piece ps v1 = Inr v" "shape v = shape v1"
    "\<And>n idx. n < length ps \<Longrightarrow> in_slices (sl (ps ! n)) idx \<Longrightarrow>
        (\<forall>m. n < m \<and> m < length ps \<longrightarrow> \<not> in_slices (sl (ps ! m)) idx)
        \<Longrightarrow> item v idx = item (d (ps ! n)) (offset_from (sl (ps ! n)) idx)"
    "\<And>idx. (\<forall>m<length ps. \<not> in_slices (sl (ps ! m)) idx) \<Longrightarrow> item v idx = item v1 idx"
    by blast
  have run: "assemble piece (p # ps) v0 = Inr v"
    using p(1) v1(1) v(1) by simp
  have first: "item v idx = item (d ((p # ps) ! n)) (offset_from (sl ((p # ps) ! n)) idx)"
    if "n < length (p # ps)" "in_slices (sl ((p # ps) ! n)) idx"
      "\<forall>m. n < m \<and> m < length (p # ps) \<longrightarrow> \<not> in_slices (sl ((p # ps) ! m)) idx"
    for n idx
  proof (cases n)
    case 0
    have "\<forall>m<length ps. \<not> in_slices (sl (ps ! m)) idx"
    proof (intro allI impI)
      fix m assume "m < length ps"
      with that(3) [rule_format, of "Suc m"] 0
      have "\<not> in_slices (sl ((p # ps) ! Suc m)) idx" by simp
      then show "\<not> in_slices (sl (ps ! m)) idx" by simp
    qed
    from v(4) [OF this] that(2) 0 v1(3) [of idx] show ?thesis by simp
  next
    case (Suc k)
    have "\<forall>m. k < m \<and> m < length ps \<longrightarrow> \<not> in_slices (sl (ps ! m)) idx"
    proof (intro allI impI)
      fix m assume "k < m \<and> m < length ps"
      with that(3) [rule_format, of "Suc m"] Suc
      have "\<not> in_slices (sl ((p # ps) ! Suc m)) idx" by simp
      then show "\<not> in_slices (sl (ps ! m)) idx" by simp
    qed
    with v(3) [of k idx] that(1,2) Suc show ?thesis by simp
  qed
  have none: "item v idx = item v0 idx"
    if "\<forall>m<length (p # ps). \<not> in_slices (sl ((p # ps) ! m)) idx" for idx
  proof -
    from that [rule_format, of 0] have "\<not> in_slices (sl p) idx" by simp
    moreover have "\<forall>m<length ps. \<not> in_slices (sl (ps ! m)) idx"
    proof (intro allI impI)
      fix m assume "m < length ps"
      with that [rule_format, of "Suc m"]
      have "\<not> in_slices (sl ((p # ps) ! Suc m)) idx" by simp
      then show "\<not> in_slices (sl (ps ! m)) idx" by simp
    qed
    ultimately show ?thesis using v(4) [of idx] v1(3) [of idx] by simp
  qed
  from run v(2) v1(2) first none show ?case by auto
qed

lemma face_flat_shape_eq:
  assumes "valid_blocks sd blocks" "sizes sd = (sx, sy, sz)" "face_shift fs face = (hx, hy, hz)"
  shows "face_flat_shape fs sd blocks face =
           Inr [card (axis_of 0 ` set (sliced_rows sd blocks)) * sx + hx,
                card (axis_of 1 ` set (sliced_rows sd blocks)) * sy + hy,
                card (axis_of 2 ` set (sliced_rows sd blocks)) * sz + hz]"
  using assms
  by (simp add: face_flat_shape_def extent_unique_def centers_unique_def centers_sliced_valid
      length_unique triple_list_def)

lemma slice_axis:
  "a < c \<Longrightarrow> a * s \<le> Suc a * s + h \<and> Suc a * s + h \<le> c * s + h \<and>
               s + h = Suc a * s + h - a * s"
proof -
  assume "a < c"
  then have "Suc a * s \<le> c * s" by (intro mult_le_mono1) simp
  then show ?thesis by simp
qed

lemma local_values_items:
  assumes valid: "\<forall>b\<in>set blocks. b < length (centers sd)"
    and rd: "read E (blkPath sd) sfield = Inr dataset"
    and sz: "sizes sd = (sx, sy, sz)"
    and sh: "face_shift (FACES E) sface = (hx, hy, hz)"
    and ds: "shape dataset = [nb, nz, sy + hy, sx + hx]"
    and nb: "\<forall>b\<in>set blocks. b < nb"
    and nz: "if ndim sd = 3 then nz = sz + hz else 0 < nz"
    and shp: "shp = [card (axis_of 0 ` set (sliced_rows sd (Some blocks))) * sx + hx,
                card (axis_of 1 ` set (sliced_rows sd (Some blocks))) * sy + hy,
                card (axis_of 2 ` set (sliced_rows sd (Some blocks))) * sz + hz]"
  shows "\<exists>vals.
      local_values E sd sfield (hx, hy, hz) shp (map (logical_index sd (Some blocks)) blocks) blocks
        = Inr vals \<and>
      shape vals = (if ndim sd = 3 then rev shp else rev (take 2 shp)) \<and>
      (\<forall>n idx. n < length blocks \<and>
           in_slices (block_slices sd (hx, hy, hz) (logical_index sd (Some blocks) (blocks ! n))) idx \<and>
           (\<forall>m. n < m \<and> m < length blocks \<longrightarrow>
              \<not> in_slices (block_slices sd (hx, hy, hz) (logical_index sd (Some blocks) (blocks ! m))) idx)
         \<longrightarrow> item vals idx = block_item dataset sd (blocks ! n)
               (offset_from (block_slices sd (hx, hy, hz) (logical_index sd (Some blocks) (blocks ! n))) idx)) \<and>
      (\<forall>idx. (\<forall>m<length blocks.
              \<not> in_slices (block_slices sd (hx, hy, hz) (logical_index sd (Some blocks) (blocks ! m))) idx)
         \<longrightarrow> item vals idx = mem E idx)"
proof -
  let ?li = "logical_index sd (Some blocks)"
  let ?ps = "zip (map ?li blocks) blocks"
  let ?sl = "\<lambda>p. block_slices sd (hx, hy, hz) (fst p)"
  let ?d = "\<lambda>p. if ndim sd = 3
                then NDArray [nz, sy + hy, sx + hx] (\<lambda>idx. item dataset (snd p # idx))
                else NDArray [sy + hy, sx + hx] (\<lambda>idx. item dataset (snd p # 0 # idx))"
  let ?piece = "if ndim sd = 3 then piece3 E sd sfield (hx, hy, hz) else piece2 E sd sfield (hx, hy, hz)"
  let ?v0 = "numpy_empty (mem E) (if ndim sd = 3 then rev shp else rev (take 2 shp))"
  have pn: "?ps ! n = (?li (blocks ! n), blocks ! n)" if "n < length blocks" for n
    using that by simp
  have pieces: "\<forall>p\<in>set ?ps. ?piece p = Inr (?sl p, ?d p) \<and> exact (shape ?v0) (?sl p) (?d p)"
  proof
    fix p assume "p \<in> set ?ps"
    then have "snd p \<in> set blocks" "fst p = ?li (snd p)"
      by (auto simp: in_set_zip) (metis nth_mem)
    then obtain b where b: "b \<in> set blocks" "p = (?li b, b)"
      by (cases p) auto
    obtain i j k where ijk: "?li b = (i, j, k)" by (cases "?li b") auto
    from logical_index_bound [OF valid b(1) ijk]
    have bound: "i < card (axis_of 0 ` set (sliced_rows sd (Some blocks)))"
      "j < card (axis_of 1 ` set (sliced_rows sd (Some blocks)))"
      "k < card (axis_of 2 ` set (sliced_rows sd (Some blocks)))"
      by simp_all
    note ax = slice_axis [OF bound(1), of sx hx] slice_axis [OF bound(2), of sy hy]
      slice_axis [OF bound(3), of sz hz]
    from b(1) nb have bn: "b < nb" by simp
    have sub1: "sub dataset b = Inr (NDArray [nz, sy + hy, sx + hx] (\<lambda>idx. item dataset (b # idx)))"
      using bn by (simp add: sub_def ds)
    show "?piece p = Inr (?sl p, ?d p) \<and> exact (shape ?v0) (?sl p) (?d p)"
    proof (cases "ndim sd = 3")
      case True
      have "piece3 E sd sfield (hx, hy, hz) p = Inr (?sl p, ?d p)"
        using True by (simp add: piece3_def b(2) ijk sz rd sub1 block_slices_def Let_def)
      moreover have "exact (shape ?v0) (?sl p) (?d p)"
        using True nz ax
        by (simp add: exact_def numpy_empty_def shp b(2) ijk block_slices_def sz
            less_Suc_eq all_conj_distrib nth_Cons' del: mult_Suc)
      ultimately show ?thesis using True by simp
    next
      case False
      with nz have "0 < nz" by simp
      then have sub2: "sub (NDArray [nz, sy + hy, sx + hx] (\<lambda>idx. item dataset (b # idx))) 0
          = Inr (NDArray [sy + hy, sx + hx] (\<lambda>idx. item dataset (b # 0 # idx)))"
        by (simp add: sub_def)
      have "piece2 E sd sfield (hx, hy, hz) p = Inr (?sl p, ?d p)"
        using False by (simp add: piece2_def b(2) ijk sz rd sub1 sub2 block_slices_def Let_def)
      moreover have "exact (shape ?v0) (?sl p) (?d p)"
        using False ax
        by (simp add: exact_def numpy_empty_def shp b(2) ijk block_slices_def sz
            less_Suc_eq all_conj_distrib nth_Cons' del: mult_Suc)
      ultimately show ?thesis using False by simp
    qed
  qed
  from assemble_items [of ?ps ?piece ?sl ?d ?v0, OF pieces] obtain v where v:
    "assemble ?piece ?ps ?v0 = Inr v" "shape v = shape ?v0"
    "\<And>n idx. n < length ?ps \<Longrightarrow> in_slices (?sl (?ps ! n)) idx \<Longrightarrow>
        (\<forall>m. n < m \<and> m < length ?ps \<longrightarrow> \<not> in_slices (?sl (?ps ! m)) idx)
        \<Longrightarrow> item v idx = item (?d (?ps ! n)) (offset_from (?sl (?ps ! n)) idx)"
    "\<And>idx. (\<forall>m<length ?ps. \<not> in_slices (?sl (?ps ! m)) idx) \<Longrightarrow> item v idx = item ?v0 idx"
    by blast
  have run: "local_values E sd sfield (hx, hy, hz) shp (map ?li blocks) blocks = Inr v"
    using v(1) by (simp add: local_values_def split: if_splits)
  have a: "item v idx = block_item dataset sd (blocks ! n) (offset_from (block_slices sd (hx, hy, hz) (?li (blocks ! n))) idx)"
    if "n < length blocks" "in_slices (block_slices sd (hx, hy, hz) (?li (blocks ! n))) idx"
      "\<forall>m. n < m \<and> m < length blocks \<longrightarrow> \<not> in_slices (block_slices sd (hx, hy, hz) (?li (blocks ! m))) idx"
    for n idx
  proof -
    have "\<forall>m. n < m \<and> m < length ?ps \<longrightarrow> \<not> in_slices (?sl (?ps ! m)) idx"
      using that(3) by simp
    from v(3) [of n idx, OF _ _ this] that(1,2)
    show ?thesis by (simp add: block_item_def)
  qed
  have b: "item v idx = mem E idx"
    if "\<forall>m<length blocks. \<not> in_slices (block_slices sd (hx, hy, hz) (?li (blocks ! m))) idx" for idx
  proof -
    have "\<forall>m<length ?ps. \<not> in_slices (?sl (?ps ! m)) idx" using that by simp
    from v(4) [OF this] show ?thesis by (simp add: numpy_empty_def)
  qed
  from run v(2) a b show ?thesis
    by (auto simp: numpy_empty_def)
qed

lemma same_cell:
  assumes "a * s \<le> x" "x < Suc a * s" "b * s \<le> x" "x < Suc b * s"
  shows "a = (b::nat)"
proof -
  from assms have "a * s < Suc b * s" "b * s < Suc a * s" by linarith+
  then have "a < Suc b" "b < Suc a" by (simp_all only: mult_less_cancel2)
  then show ?thesis by simp
qed

lemma block_slices_disjoint:
  assumes "in_slices (block_slices sd (0, 0, 0) (i, j, k)) idx"
    and "in_slices (block_slices sd (0, 0, 0) (i', j', k')) idx"
  shows "i = i' \<and> j = j' \<and> (ndim sd = 3 \<longrightarrow> k = k')"
proof -
  obtain sx sy sz where sz: "sizes sd = (sx, sy, sz)" by (cases "sizes sd") auto
  show ?thesis
  proof (cases "ndim sd = 3")
    case True
    with assms(1) sz have "length idx = 3" by (simp add: in_slices_def block_slices_def)
    then obtain z y x where idx: "idx = [z, y, x]"
      by (auto simp: numeral_3_eq_3 length_Suc_conv)
    from assms True sz idx have
      "k * sz \<le> z" "z < Suc k * sz" "k' * sz \<le> z" "z < Suc k' * sz"
      "j * sy \<le> y" "y < Suc j * sy" "j' * sy \<le> y" "y < Suc j' * sy"
      "i * sx \<le> x" "x < Suc i * sx" "i' * sx \<le> x" "x < Suc i' * sx"
      by (simp_all add: in_slices_def block_slices_def del: mult_Suc)
    then show ?thesis
      by (blast intro: same_cell)
  next
    case False
    with assms(1) sz have "length idx = 2" by (simp add: in_slices_def block_slices_def)
    then obtain y x where idx: "idx = [y, x]"
      by (auto simp: numeral_2_eq_2 length_Suc_conv)
    from assms False sz idx have
      "j * sy \<le> y" "y < Suc j * sy" "j' * sy \<le> y" "y < Suc j' * sy"
      "i * sx \<le> x" "x < Suc i * sx" "i' * sx \<le> x" "x < Suc i' * sx"
      by (simp_all add: in_slices_def block_slices_def del: mult_Suc)
    with False show ?thesis
      by (blast intro: same_cell)
  qed
qed

text \<open>
  Claim C5, as amended. Let \<open>blocks\<close> be blocks of the source whose stored arrays for the
  field have the shape of a block at the source location (block size plus face shift
  per axis). Then the local source array exists and has the shape \<^verbatim>\<open>face_flat_shape\<close>
  gives, reversed (z, y, x; for two dimensions y, x). The block at position \<open>n\<close> of
  \<open>blocks\<close>, with logical index (i, j, k), is copied to the slice that starts at (i, j, k)
  times the block size and extends by the block size plus the face shift on each axis;
  in the assembled array a cell of that slice holds this block's value unless the slice
  of a block later in \<open>blocks\<close> covers the cell too, and a cell in no block's slice holds
  what the allocation held. For a location without a shift, two slices with a common
  cell belong to blocks with the same logical index (on the axes copied).
\<close>

theorem local_values_patch:
  assumes "\<forall>b\<in>set blocks. b < length (centers sd)"
    and "read E (blkPath sd) sfield = Inr dataset"
    and "sizes sd = (sx, sy, sz)"
    and "face_shift (FACES E) sface = (hx, hy, hz)"
    and "shape dataset = [nb, nz, sy + hy, sx + hx]"
    and "\<forall>b\<in>set blocks. b < nb"
    and "if ndim sd = 3 then nz = sz + hz else 0 < nz"
  shows "\<exists>shp vals.
      face_flat_shape (FACES E) sd (Some blocks) sface = Inr shp \<and>
      index_unique sd blocks = Inr (map (logical_index sd (Some blocks)) blocks) \<and>
      local_values E sd sfield (hx, hy, hz) shp (map (logical_index sd (Some blocks)) blocks) blocks
        = Inr vals \<and>
      shape vals = (if ndim sd = 3 then rev shp else rev (take 2 shp)) \<and>
      (\<forall>n idx. n < length blocks \<and>
           in_slices (block_slices sd (hx, hy, hz) (logical_index sd (Some blocks) (blocks ! n))) idx \<and>
           (\<forall>m. n < m \<and> m < length blocks \<longrightarrow>
              \<not> in_slices (block_slices sd (hx, hy, hz) (logical_index sd (Some blocks) (blocks ! m))) idx)
         \<longrightarrow> item vals idx = block_item dataset sd (blocks ! n)
               (offset_from (block_slices sd (hx, hy, hz) (logical_index sd (Some blocks) (blocks ! n))) idx)) \<and>
      (\<forall>idx. (\<forall>m<length blocks.
              \<not> in_slices (block_slices sd (hx, hy, hz) (logical_index sd (Some blocks) (blocks ! m))) idx)
         \<longrightarrow> item vals idx = mem E idx) \<and>
      ((hx, hy, hz) = (0, 0, 0) \<longrightarrow>
         (\<forall>n m idx.
            in_slices (block_slices sd (hx, hy, hz) (logical_index sd (Some blocks) (blocks ! n))) idx \<and>
            in_slices (block_slices sd (hx, hy, hz) (logical_index sd (Some blocks) (blocks ! m))) idx
          \<longrightarrow> fst (logical_index sd (Some blocks) (blocks ! n))
                = fst (logical_index sd (Some blocks) (blocks ! m)) \<and>
              fst (snd (logical_index sd (Some blocks) (blocks ! n)))
                = fst (snd (logical_index sd (Some blocks) (blocks ! m))) \<and>
              (ndim sd = 3 \<longrightarrow> snd (snd (logical_index sd (Some blocks) (blocks ! n)))
                = snd (snd (logical_index sd (Some blocks) (blocks ! m))))))"
proof -
  let ?li = "logical_index sd (Some blocks)"
  let ?shp = "[card (axis_of 0 ` set (sliced_rows sd (Some blocks))) * sx + hx,
                card (axis_of 1 ` set (sliced_rows sd (Some blocks))) * sy + hy,
                card (axis_of 2 ` set (sliced_rows sd (Some blocks))) * sz + hz]"
  have v: "valid_blocks sd (Some blocks)"
    using assms(1) by (simp add: valid_blocks_def list_all_iff)
  have f: "face_flat_shape (FACES E) sd (Some blocks) sface = Inr ?shp"
    by (rule face_flat_shape_eq [OF v assms(3,4)])
  have d: "fst (?li (blocks ! n)) = fst (?li (blocks ! m)) \<and>
           fst (snd (?li (blocks ! n))) = fst (snd (?li (blocks ! m))) \<and>
           (ndim sd = 3 \<longrightarrow> snd (snd (?li (blocks ! n))) = snd (snd (?li (blocks ! m))))"
    if "in_slices (block_slices sd (0, 0, 0) (?li (blocks ! n))) idx"
       "in_slices (block_slices sd (0, 0, 0) (?li (blocks ! m))) idx" for n m idx
    using block_slices_disjoint [of sd "fst (?li (blocks ! n))" "fst (snd (?li (blocks ! n)))"
        "snd (snd (?li (blocks ! n)))" idx "fst (?li (blocks ! m))" "fst (snd (?li (blocks ! m)))"
        "snd (snd (?li (blocks ! m)))"] that
    by simp
  from local_values_items [OF assms refl] obtain vals where
    "local_values E sd sfield (hx, hy, hz) ?shp (map ?li blocks) blocks = Inr vals"
    "shape vals = (if ndim sd = 3 then rev ?shp else rev (take 2 ?shp))"
    "\<forall>n idx. n < length blocks \<and>
           in_slices (block_slices sd (hx, hy, hz) (?li (blocks ! n))) idx \<and>
           (\<forall>m. n < m \<and> m < length blocks \<longrightarrow>
              \<not> in_slices (block_slices sd (hx, hy, hz) (?li (blocks ! m))) idx)
         \<longrightarrow> item vals idx = block_item dataset sd (blocks ! n)
               (offset_from (block_slices sd (hx, hy, hz) (?li (blocks ! n))) idx)"
    "\<forall>idx. (\<forall>m<length blocks.
              \<not> in_slices (block_slices sd (hx, hy, hz) (?li (blocks ! m))) idx)
         \<longrightarrow> item vals idx = mem E idx"
    by blast
  with f index_unique_valid [OF assms(1)] d show ?thesis
    by (intro exI [of _ ?shp] exI [of _ vals]) (simp only: prod.inject, blast)
qed

lemma patch0:
  "blocks_from_bbox two_blocks (hd (bndboxes one_block)) = [0, 1] \<and>
   index_unique two_blocks [0, 1] = Inr [(0, 0, 0), (1, 0, 0)] \<and>
   logical_index two_blocks (Some [0, 1]) 0 = (0, 0, 0) \<and>
   logical_index two_blocks (Some [0, 1]) 1 = (1, 0, 0) \<and>
   face_shift (FACES env0) ''facex'' = (1, 0, 0) \<and>
   face_flat_shape (FACES env0) two_blocks (Some [0, 1]) ''facex'' = Inr [3, 1, 1]"
  by code_simp

text \<open>
  The claim as stated fails where two slices overlap. The cell [0, 0, 1] of the local
  array lies in the slice of block 0 (logical index (0, 0, 0), slice 0:2 along x), block 0
  stores 11 for it in \<open>velx_data\<close> (the dataset \<open>env0\<close> reads), and the assembled array
  holds 99 there, the value block 1 stores for the same face.
\<close>

theorem local_values_patch_counterexample:
  "blocks_from_bbox two_blocks (hd (bndboxes one_block)) = [0, 1] \<and>
   index_unique two_blocks [0, 1] = Inr [(0, 0, 0), (1, 0, 0)] \<and>
   face_shift (FACES env0) ''facex'' = (1, 0, 0) \<and>
   face_flat_shape (FACES env0) two_blocks (Some [0, 1]) ''facex'' = Inr [3, 1, 1] \<and>
   block_slices two_blocks (1, 0, 0) (0, 0, 0) = [(0, 1), (0, 1), (0, 2)] \<and>
   in_slices (block_slices two_blocks (1, 0, 0) (0, 0, 0)) [0, 0, 1] \<and>
   block_item velx_data two_blocks 0
     (offset_from (block_slices two_blocks (1, 0, 0) (0, 0, 0)) [0, 0, 1]) = 11 \<and>
   result_item (local_values env0 two_blocks ''velx'' (1, 0, 0) [3, 1, 1] [(0, 0, 0), (1, 0, 0)] [0, 1])
     [0, 0, 1] = Inr 99"
  by code_simp

theorem local_values_patch_witness:
  "\<exists>shp vals.
      face_flat_shape (FACES env0) two_blocks (Some [0, 1]) ''facex'' = Inr shp \<and>
      local_values env0 two_blocks ''velx'' (1, 0, 0) shp
        (map (logical_index two_blocks (Some [0, 1])) [0, 1]) [0, 1] = Inr vals \<and>
      shape vals = [1, 1, 3] \<and>
      item vals [0, 0, 0] = 10 \<and> item vals [0, 0, 2] = 12"
proof -
  have h: "\<forall>b\<in>set [0, 1]. b < length (centers two_blocks)"
    "read env0 (blkPath two_blocks) ''velx'' = Inr velx_data"
    "sizes two_blocks = (1, 1, 1)"
    "face_shift (FACES env0) ''facex'' = (1, 0, 0)"
    "shape velx_data = [2, 1, 1 + 0, 1 + 1]"
    "\<forall>b\<in>set [0, 1]. b < (2::nat)"
    "if ndim two_blocks = 3 then (1::nat) = 1 + 0 else 0 < (1::nat)"
    by (simp_all add: two_blocks_def env0_def velx_data_def face_shift_def)
  have s: "block_slices two_blocks (1, 0, 0) (0, 0, 0) = [(0, 1), (0, 1), (0, 2)]"
    "block_slices two_blocks (1, 0, 0) (1, 0, 0) = [(0, 1), (0, 1), (1, 3)]"
    by code_simp+
  have li: "logical_index two_blocks (Some [0, 1]) 0 = (0, 0, 0)"
    "logical_index two_blocks (Some [0, 1]) 1 = (1, 0, 0)"
    using patch0 by simp_all
  have n3: "ndim two_blocks = 3" by (simp add: two_blocks_def)
  from local_values_patch [OF h] obtain shp vals where v:
    "face_flat_shape (FACES env0) two_blocks (Some [0, 1]) ''facex'' = Inr shp"
    "local_values env0 two_blocks ''velx'' (1, 0, 0) shp
        (map (logical_index two_blocks (Some [0, 1])) [0, 1]) [0, 1] = Inr vals"
    "shape vals = (if ndim two_blocks = 3 then rev shp else rev (take 2 shp))"
    "\<forall>n idx. n < length [0, 1::nat] \<and>
           in_slices (block_slices two_blocks (1, 0, 0) (logical_index two_blocks (Some [0, 1]) ([0, 1] ! n))) idx \<and>
           (\<forall>m. n < m \<and> m < length [0, 1::nat] \<longrightarrow>
              \<not> in_slices (block_slices two_blocks (1, 0, 0) (logical_index two_blocks (Some [0, 1]) ([0, 1] ! m))) idx)
         \<longrightarrow> item vals idx = block_item velx_data two_blocks ([0, 1] ! n)
               (offset_from (block_slices two_blocks (1, 0, 0) (logical_index two_blocks (Some [0, 1]) ([0, 1] ! n))) idx)"
    by blast
  from v(1) patch0 have shp: "shp = [3, 1, 1]" by simp
  have m1: "m = 1" if "0 < m \<and> m < length [0, 1::nat]" for m :: nat
    using that by simp
  have "item vals [0, 0, 0] = block_item velx_data two_blocks 0
          (offset_from [(0, 1), (0, 1), (0, 2)] [0, 0, 0])"
    using v(4) [rule_format, of 0 "[0, 0, 0]"] li s
    by (auto simp: in_slices_def dest!: m1)
  moreover have "item vals [0, 0, 2] = block_item velx_data two_blocks 1
          (offset_from [(0, 1), (0, 1), (1, 3)] [0, 0, 2])"
    using v(4) [rule_format, of 1 "[0, 0, 2]"] li s
    by (simp add: in_slices_def)
  ultimately have "item vals [0, 0, 0] = 10" "item vals [0, 0, 2] = 12"
    by (simp_all add: block_item_def n3 offset_from_def velx_data_def)
  with v(1,2,3) shp n3 show ?thesis by auto
qed

end
